theory Spec2Isabelle
  imports Main "HOL-Library.Word" "HOL-Library.Monad_Syntax"
begin

unbundle bit_operations_syntax

section \<open>The toygarble circuit core (circuit.go)\<close>

text \<open>
  Conventions of the embedding.
  \<^item> Go's \<open>int\<close> is modelled as HOL's \<open>int\<close>, 64 bits wide where the width matters:
    the sum \<open>NumInputWires + NumOutputWires\<close> that \<open>validCircuit\<close> compares with the gate
    count wraps around (\<open>go_int\<close>), since both fields are arbitrary arguments of
    \<open>initializeCircuit\<close>. The remaining arithmetic is taken exactly. Its results are
    slice indices and slice bounds (\<open>NumInputWires + outputWireNo\<close> of \<open>getOutputGate\<close>,
    \<open>currentWire + NumWiresOV[i]\<close>, loop counters) or small multiples of a slice length
    (\<open>len * 8\<close>, \<open>len + 7\<close>), and a slice is shorter than \<open>2^60\<close>: an exact result that
    is a valid index or bound has not wrapped, and a wrapped one is valid where the exact
    one is not only in \<open>getOutputGate\<close> at \<open>NumInputWires = outputWireNo = -2^63\<close>, where
    the model panics and the code reads \<open>Gates[0]\<close>.
    A \<open>byte\<close> is an \<open>8 word\<close>.
  \<^item> A Go slice is a list (capacity equal to length); \<open>nil\<close> passed as an argument is
    the empty list. A \<open>nil\<close> slice that a function returns to signal failure is \<open>None\<close>
    of an inner option.
  \<^item> A run-time panic of Go (index out of range, slice bounds out of range, \<open>make\<close> with a
    negative length) is \<open>None\<close> of the outer option: every function that indexes returns
    \<open>'a option\<close>, and \<open>Some\<close> means that the call returned normally.
  \<^item> A method with a pointer receiver that mutates the circuit returns the new circuit
    next to its Go result; a method that only reads returns its Go result alone.
  \<^item> All divisions and remainders of the code have a non-negative loop counter as
    dividend, where Go's truncating \<open>/\<close> and \<open>%\<close> agree with \<open>div\<close> and \<open>mod\<close>.
  \<^item> Diagnostic printing (\<open>fmt.Printf\<close>, \<open>os.Stderr.WriteString\<close>) is left out.
\<close>

subsection \<open>Machine integers\<close>

text \<open>The value of a 64-bit \<open>int\<close> after an addition whose exact result is \<open>x\<close>: the
  representative of \<open>x\<close> modulo \<open>2^64\<close> between \<open>-2^63\<close> and \<open>2^63 - 1\<close>.\<close>

definition go_int :: "int \<Rightarrow> int" where
  "go_int x = (x + 2 ^ 63) mod 2 ^ 64 - 2 ^ 63"

subsection \<open>Indexing a slice\<close>

definition go_index :: "'a list \<Rightarrow> int \<Rightarrow> 'a option" where
  "go_index xs i = (if 0 \<le> i \<and> i < int (length xs) then Some (xs ! nat i) else None)"

definition go_store :: "'a list \<Rightarrow> int \<Rightarrow> 'a \<Rightarrow> 'a list option" where
  "go_store xs i v = (if 0 \<le> i \<and> i < int (length xs) then Some (xs[nat i := v]) else None)"

subsection \<open>Gate kinds and the arity tables\<close>

type_synonym GateType_t = int

definition GateINPUT :: GateType_t where "GateINPUT = 0"
definition GateOUTPUT :: GateType_t where "GateOUTPUT = 1"
definition GateAND :: GateType_t where "GateAND = 2"
definition GateOR :: GateType_t where "GateOR = 3"
definition GateNOT :: GateType_t where "GateNOT = 4"
definition GateXOR :: GateType_t where "GateXOR = 5"
definition GateCONST :: GateType_t where "GateCONST = 6"
definition GateCOPY :: GateType_t where "GateCOPY = 7"

lemmas GateType_defs =
  GateINPUT_def GateOUTPUT_def GateAND_def GateOR_def
  GateNOT_def GateXOR_def GateCONST_def GateCOPY_def

definition min_input_wires :: "int list" where
  "min_input_wires = [0, 0, 2, 2, 1, 2, 0, 1]"

definition max_input_wires :: "int list" where
  "max_input_wires = [0, 1, 2, 2, 1, 2, 0, 1]"

subsection \<open>Gates and circuits\<close>

record Gate =
  GateType :: GateType_t
  ConstVal :: bool
  InFrom :: "int list"

record Circuit =
  NumInputWires :: int
  NumOutputWires :: int
  NumInputVars :: int
  NumWiresIV :: "int list"
  NumOutputVars :: int
  NumWiresOV :: "int list"
  Gates :: "Gate list"

definition getInputGate :: "Circuit \<Rightarrow> int \<Rightarrow> int" where
  "getInputGate circ inputWireNo = inputWireNo"

definition getOutputGate :: "Circuit \<Rightarrow> int \<Rightarrow> int" where
  "getOutputGate circ outputWireNo = NumInputWires circ + outputWireNo"

subsection \<open>The builder\<close>

text \<open>
  \<open>addGate\<close>: the comparison \<open>len(inFrom) < min_input_wires[gateType] ||
  len(inFrom) > max_input_wires[gateType]\<close> indexes the tables with the gate kind, left to
  right and short-circuiting; a kind outside the tables panics. (The diagnostic of the
  refusal reads both tables again, at an index that is in range once the first read was:
  the tables have the same length.) The result is the circuit after the call and the
  returned index (\<open>-1\<close> when the gate is refused).
\<close>

definition addGate :: "Circuit \<Rightarrow> GateType_t \<Rightarrow> bool \<Rightarrow> int list \<Rightarrow> (Circuit \<times> int) option" where
  "addGate circ gateType constVal inFrom = do {
     lo \<leftarrow> go_index min_input_wires gateType;
     bad \<leftarrow> (if int (length inFrom) < lo then Some True
             else do { hi \<leftarrow> go_index max_input_wires gateType;
                       Some (int (length inFrom) > hi) });
     if bad then Some (circ, - 1)
     else let newGate = \<lparr>GateType = gateType, ConstVal = constVal, InFrom = inFrom\<rparr>;
              circ' = circ\<lparr>Gates := Gates circ @ [newGate]\<rparr>
          in Some (circ', int (length (Gates circ')) - 1)
   }"

definition addGate2 :: "Circuit \<Rightarrow> GateType_t \<Rightarrow> int \<Rightarrow> int \<Rightarrow> (Circuit \<times> int) option" where
  "addGate2 circ gateType inFrom1 inFrom2 = addGate circ gateType False [inFrom1, inFrom2]"

text \<open>The two loops of \<open>initializeCircuit\<close>: \<open>n\<close> calls of \<open>addGate\<close> with no
  predecessors, the returned index dropped.\<close>

primrec addGates :: "nat \<Rightarrow> GateType_t \<Rightarrow> Circuit \<Rightarrow> Circuit option" where
  "addGates 0 gateType circ = Some circ"
| "addGates (Suc n) gateType circ = do {
     (circ', _) \<leftarrow> addGate circ gateType False [];
     addGates n gateType circ'
   }"

definition initializeCircuit ::
  "Circuit \<Rightarrow> int \<Rightarrow> int \<Rightarrow> int \<Rightarrow> int \<Rightarrow> int list \<Rightarrow> int list \<Rightarrow> Circuit option" where
  "initializeCircuit circ numInputWires numOutputWires numInputVars numOutputVars
       numWiresPerIV numWiresPerOV = do {
     let circ1 = circ\<lparr>NumInputWires := numInputWires, NumOutputWires := numOutputWires,
                      NumInputVars := numInputVars, NumOutputVars := numOutputVars,
                      NumWiresIV := numWiresPerIV, NumWiresOV := numWiresPerOV\<rparr>;
     circ2 \<leftarrow> addGates (nat numInputWires) GateINPUT circ1;
     addGates (nat numOutputWires) GateOUTPUT circ2
   }"

text \<open>The zero value of the Go struct, on which \<open>initializeCircuit\<close> is called.\<close>

definition emptyCircuit :: Circuit where
  "emptyCircuit = \<lparr>NumInputWires = 0, NumOutputWires = 0, NumInputVars = 0, NumWiresIV = [],
                   NumOutputVars = 0, NumWiresOV = [], Gates = []\<rparr>"

definition connectOutputWire :: "Circuit \<Rightarrow> int \<Rightarrow> int \<Rightarrow> (Circuit \<times> bool) option" where
  "connectOutputWire circ gateNum outputNum = do {
     g \<leftarrow> go_index (Gates circ) (getOutputGate circ outputNum);
     if length (InFrom g) = 0 then do {
       gs \<leftarrow> go_store (Gates circ) (getOutputGate circ outputNum)
               (g\<lparr>InFrom := InFrom g @ [gateNum]\<rparr>);
       Some (circ\<lparr>Gates := gs\<rparr>, True)
     } else Some (circ, False)
   }"

subsection \<open>The structural validator\<close>

text \<open>The loop of \<open>validCircuit\<close> over the gates, in order; it stops at the first gate
  whose fan-in is outside the tables. Before the loop, \<open>validCircuit\<close> compares the
  number of gates with the machine sum of the two wire counts.\<close>

fun validGates :: "Gate list \<Rightarrow> bool option" where
  "validGates [] = Some True"
| "validGates (g # gs) = do {
     lo \<leftarrow> go_index min_input_wires (GateType g);
     bad \<leftarrow> (if int (length (InFrom g)) < lo then Some True
             else do { hi \<leftarrow> go_index max_input_wires (GateType g);
                       Some (int (length (InFrom g)) > hi) });
     if bad then Some False else validGates gs
   }"

definition validCircuit :: "Circuit \<Rightarrow> bool option" where
  "validCircuit circ =
     (if int (length (Gates circ)) < go_int (NumInputWires circ + NumOutputWires circ)
      then Some False
      else validGates (Gates circ))"

subsection \<open>The evaluator\<close>

text \<open>The three scratch slices that \<open>evaluateGate\<close> receives by pointer and updates.\<close>

record scratch =
  visited :: "bool list"
  calculated :: "bool list"
  values_s :: "bool list"

text \<open>
  The \<open>switch\<close> of \<open>evaluateGate\<close>, in the order of its cases: from the gate and the
  results of the recursive calls (\<open>false\<close> where no call was made) to \<open>(success, result)\<close>.
  Only the \<open>GateINPUT\<close> case indexes, into the input bits.
\<close>

definition gateSwitch ::
  "Gate \<Rightarrow> int \<Rightarrow> bool list \<Rightarrow> bool \<Rightarrow> bool \<Rightarrow> bool \<Rightarrow> bool \<Rightarrow> (bool \<times> bool) option" where
  "gateSwitch g gateID inputs success1 result1 success2 result2 =
     (let n = length (InFrom g); t = GateType g in
      if t = GateINPUT then do { b \<leftarrow> go_index inputs gateID; Some (True, b) }
      else if t = GateOUTPUT then
        Some (if n = 1 then (success1, result1) else (False, False))
      else if t = GateCOPY then
        Some (if n = 1 then (success1, result1) else (False, False))
      else if t = GateAND then
        Some (if n = 2 then (if success1 \<and> success2 then (True, result1 \<and> result2)
                             else (False, False))
              else (False, False))
      else if t = GateXOR then
        Some (if n = 2 then (if success1 \<and> success2 then (True, result1 \<noteq> result2)
                             else (False, False))
              else (False, False))
      else if t = GateCONST then
        Some (True, if n = 0 then ConstVal g else False)
      else if t = GateOR then
        Some (if n = 2 then (if success1 \<and> success2 then (True, result1 \<or> result2)
                             else (False, False))
              else (False, False))
      else if t = GateNOT then
        Some (if n = 1 then (if success1 then (True, \<not> result1) else (False, False))
              else (False, False))
      else Some (False, False))"

text \<open>
  What \<open>evaluateGate\<close> does after its recursive calls: the \<open>switch\<close>, then the
  memoisation (\<open>calculated[gateID] = true\<close>, \<open>values[gateID] = result\<close>) when the gate
  succeeded, and the return of \<open>(success, result)\<close>. The scratch is the one the last
  recursive call left.
\<close>

definition finishGate ::
  "Gate \<Rightarrow> int \<Rightarrow> bool list \<Rightarrow> bool \<Rightarrow> bool \<Rightarrow> bool \<Rightarrow> bool \<Rightarrow> scratch \<Rightarrow>
   (bool \<times> bool \<times> scratch) option" where
  "finishGate g gateID inputs success1 result1 success2 result2 s = do {
     (success, result) \<leftarrow> gateSwitch g gateID inputs success1 result1 success2 result2;
     if success then do {
       cal \<leftarrow> go_store (calculated s) gateID True;
       val \<leftarrow> go_store (values_s s) gateID result;
       Some (True, result, s\<lparr>calculated := cal, values_s := val\<rparr>)
     } else Some (False, result, s)
   }"

text \<open>
  \<open>evaluateGate\<close>: the result is \<open>(success, result, scratch after the call)\<close>.
  Both conditions at the top index \<open>visited\<close> and then \<open>calculated\<close>. A gate that is not an
  input has \<open>InFrom[0]\<close> read with no check of the length, and \<open>InFrom[1]\<close> when the length
  is 2; the second call runs on the scratch the first one left. \<open>success2\<close> and
  \<open>result2\<close> (and, for an input gate, \<open>success1\<close> and \<open>result1\<close>) keep their zero value
  \<open>false\<close> when the call that would set them is not made.
\<close>

function evaluateGate ::
  "Circuit \<Rightarrow> int \<Rightarrow> scratch \<Rightarrow> bool list \<Rightarrow> (bool \<times> bool \<times> scratch) option" where
  "evaluateGate circ gateID s inputs = do {
     v \<leftarrow> go_index (visited s) gateID;
     c \<leftarrow> go_index (calculated s) gateID;
     if v \<and> \<not> c then Some (False, False, s)
     else if c then do { x \<leftarrow> go_index (values_s s) gateID; Some (True, x, s) }
     else do {
       vis \<leftarrow> go_store (visited s) gateID True;
       g \<leftarrow> go_index (Gates circ) gateID;
       if GateType g \<noteq> GateINPUT then do {
         p0 \<leftarrow> go_index (InFrom g) 0;
         (success1, result1, s1) \<leftarrow> evaluateGate circ p0 (s\<lparr>visited := vis\<rparr>) inputs;
         if length (InFrom g) = 2 then do {
           p1 \<leftarrow> go_index (InFrom g) 1;
           (success2, result2, s2) \<leftarrow> evaluateGate circ p1 s1 inputs;
           finishGate g gateID inputs success1 result1 success2 result2 s2
         } else finishGate g gateID inputs success1 result1 False False s1
       } else finishGate g gateID inputs False False False False (s\<lparr>visited := vis\<rparr>)
     }
   }"
  by pat_completeness auto

text \<open>The measure of the recursion of \<open>evaluateGate\<close>: the number of gates not yet
  visited.\<close>

definition unvisited :: "scratch \<Rightarrow> nat" where
  "unvisited s = length (filter Not (visited s))"

text \<open>
  The loop of \<open>EvaluateCircuit\<close> over the output wires, from wire \<open>i\<close> on: it clears
  \<open>visited\<close> (and only \<open>visited\<close>), evaluates the output gate, stores the bit in
  \<open>result[i]\<close> and gives up at the first failure with \<open>(false, nil)\<close>.
\<close>

function evalOutputs ::
  "Circuit \<Rightarrow> bool list \<Rightarrow> int \<Rightarrow> scratch \<Rightarrow> bool list \<Rightarrow> (bool \<times> bool list option) option" where
  "evalOutputs circ inputBits i s result =
     (if i < NumOutputWires circ then do {
        (success, resultBit, s') \<leftarrow>
          evaluateGate circ (getOutputGate circ i)
            (s\<lparr>visited := map (\<lambda>_. False) (visited s)\<rparr>) inputBits;
        result' \<leftarrow> go_store result i resultBit;
        if success = False then Some (False, None)
        else evalOutputs circ inputBits (i + 1) s' result'
      } else Some (True, Some result))"
  by pat_completeness auto
termination
  by (relation "measure (\<lambda>(circ, inputBits, i, s, result). nat (NumOutputWires circ - i))") auto

declare evalOutputs.simps [simp del]

text \<open>\<open>EvaluateCircuit\<close>; the two nested tests are the short-circuit \<open>||\<close> of its first
  \<open>if\<close>.\<close>

definition EvaluateCircuit :: "Circuit \<Rightarrow> bool list \<Rightarrow> (bool \<times> bool list option) option" where
  "EvaluateCircuit circ inputBits =
     (if int (length inputBits) \<noteq> NumInputWires circ then Some (False, None)
      else if NumOutputWires circ < 1 then Some (False, None)
      else let n = length (Gates circ) in
        evalOutputs circ inputBits 0
          \<lparr>visited = replicate n False, calculated = replicate n False,
           values_s = replicate n False\<rparr>
          (replicate (nat (NumOutputWires circ)) False))"

subsection \<open>The bit codec\<close>

type_synonym byte = "8 word"

text \<open>Go's \<open>make([]T, n)\<close>: \<open>n\<close> zero values, a panic when \<open>n\<close> is negative.\<close>

definition go_make :: "'a \<Rightarrow> int \<Rightarrow> 'a list option" where
  "go_make z n = (if n < 0 then None else Some (replicate (nat n) z))"

text \<open>Go's \<open>s[lo:hi]\<close> on a slice whose capacity is its length: a panic unless
  \<open>0 \<le> lo \<le> hi \<le> len(s)\<close>.\<close>

definition go_slice :: "'a list \<Rightarrow> int \<Rightarrow> int \<Rightarrow> 'a list option" where
  "go_slice xs lo hi =
     (if 0 \<le> lo \<and> lo \<le> hi \<and> hi \<le> int (length xs)
      then Some (take (nat (hi - lo)) (drop (nat lo) xs)) else None)"

text \<open>
  The inner loop of \<open>PadInputsToBoolArray\<close> for one variable of \<open>w\<close> wires, from wire
  offset \<open>j\<close> on: it writes \<open>result[currentLoc]\<close> and returns the advanced
  \<open>currentLoc\<close> with the result.
\<close>

function padBits ::
  "byte list \<Rightarrow> int \<Rightarrow> int \<Rightarrow> int \<Rightarrow> bool list \<Rightarrow> (int \<times> bool list) option" where
  "padBits buf w j currentLoc result =
     (if j < w then do {
        b \<leftarrow> (if j div 8 < int (length buf) then do {
                x \<leftarrow> go_index buf (int (length buf) - j div 8 - 1);
                Some ((uint x AND push_bit (nat (j mod 8)) 1) \<noteq> 0)
              } else Some False);
        result' \<leftarrow> go_store result currentLoc b;
        padBits buf w (j + 1) (currentLoc + 1) result'
      } else Some (currentLoc, result))"
  by pat_completeness auto
termination
  by (relation "measure (\<lambda>(buf, w, j, currentLoc, result). nat (w - j))") auto

declare padBits.simps [simp del]

text \<open>The outer loop of \<open>PadInputsToBoolArray\<close> over the buffers, from buffer \<open>i\<close> on.\<close>

function padVars ::
  "Circuit \<Rightarrow> byte list list \<Rightarrow> int \<Rightarrow> int \<Rightarrow> bool list \<Rightarrow> bool list option option" where
  "padVars circ inputBufs i currentLoc result =
     (if i < int (length inputBufs) then do {
        buf \<leftarrow> go_index inputBufs i;
        w \<leftarrow> go_index (NumWiresIV circ) i;
        if int (length buf) * 8 > w then Some None
        else do {
          (currentLoc', result') \<leftarrow> padBits buf w 0 currentLoc result;
          padVars circ inputBufs (i + 1) currentLoc' result'
        }
      } else Some (Some result))"
  by pat_completeness auto
termination
  by (relation "measure (\<lambda>(circ, inputBufs, i, currentLoc, result). nat (int (length inputBufs) - i))")
    auto

declare padVars.simps [simp del]

definition PadInputsToBoolArray :: "Circuit \<Rightarrow> byte list list \<Rightarrow> bool list option option" where
  "PadInputsToBoolArray circ inputBufs = do {
     result \<leftarrow> go_make False (NumInputWires circ);
     if int (length inputBufs) > NumInputVars circ then Some None
     else padVars circ inputBufs 0 0 result
   }"

text \<open>The loop of \<open>boolArrayToBytes\<close>, from bit \<open>i\<close> on.\<close>

function setBits :: "bool list \<Rightarrow> int \<Rightarrow> byte list \<Rightarrow> byte list option" where
  "setBits input i result =
     (if i < int (length input) then do {
        b \<leftarrow> go_index input i;
        result' \<leftarrow> (if b = True then do {
                      x \<leftarrow> go_index result (int (length result) - i div 8 - 1);
                      go_store result (int (length result) - i div 8 - 1)
                        (x + push_bit (nat (i mod 8)) 1)
                    } else Some result);
        setBits input (i + 1) result'
      } else Some result)"
  by pat_completeness auto
termination
  by (relation "measure (\<lambda>(input, i, result). nat (int (length input) - i))") auto

declare setBits.simps [simp del]

definition boolArrayToBytes :: "bool list \<Rightarrow> byte list option" where
  "boolArrayToBytes input = do {
     result \<leftarrow> go_make 0 ((int (length input) + 7) div 8);
     setBits input 0 result
   }"

text \<open>The loop of \<open>DecodeOutputVariables\<close> over the output variables, from variable
  \<open>i\<close> on.\<close>

function decodeVars ::
  "Circuit \<Rightarrow> bool list \<Rightarrow> int \<Rightarrow> int \<Rightarrow> byte list list \<Rightarrow> byte list list option" where
  "decodeVars circ outWires i currentWire result =
     (if i < NumOutputVars circ then do {
        w \<leftarrow> go_index (NumWiresOV circ) i;
        boolSlice \<leftarrow> go_slice outWires currentWire (currentWire + w);
        bytes \<leftarrow> boolArrayToBytes boolSlice;
        result' \<leftarrow> go_store result i bytes;
        decodeVars circ outWires (i + 1) (currentWire + w) result'
      } else Some result)"
  by pat_completeness auto
termination
  by (relation "measure (\<lambda>(circ, outWires, i, currentWire, result). nat (NumOutputVars circ - i))")
    auto

declare decodeVars.simps [simp del]

definition DecodeOutputVariables :: "Circuit \<Rightarrow> bool list \<Rightarrow> byte list list option option" where
  "DecodeOutputVariables circ outWires =
     (if NumOutputWires circ \<noteq> int (length outWires) then Some None
      else do {
        result \<leftarrow> go_make [] (NumOutputVars circ);
        r \<leftarrow> decodeVars circ outWires 0 0 result;
        Some (Some r)
      })"

section \<open>Notions used in the statements\<close>

text \<open>
  The arity table in the words of the specification (section 6): the inclusive fan-in
  range of each of the eight gate kinds, and no range for any other number. It is compared
  here with the two arrays \<open>min_input_wires\<close> and \<open>max_input_wires\<close> of the code.
\<close>

definition spec_arity :: "GateType_t \<Rightarrow> (nat \<times> nat) option" where
  "spec_arity kind =
     (if kind = GateINPUT then Some (0, 0)
      else if kind = GateOUTPUT then Some (0, 1)
      else if kind = GateAND \<or> kind = GateOR \<or> kind = GateXOR then Some (2, 2)
      else if kind = GateNOT \<or> kind = GateCOPY then Some (1, 1)
      else if kind = GateCONST then Some (0, 0)
      else None)"

definition fanin_in_range :: "Gate \<Rightarrow> bool" where
  "fanin_in_range g =
     (case spec_arity (GateType g) of
        Some (lo, hi) \<Rightarrow> lo \<le> length (InFrom g) \<and> length (InFrom g) \<le> hi
      | None \<Rightarrow> False)"

text \<open>Circuits used as concrete inputs below, each as the builder produces it.\<close>

definition andCircuit :: Circuit where
  "andCircuit =
     \<lparr>NumInputWires = 2, NumOutputWires = 1, NumInputVars = 1, NumWiresIV = [2],
      NumOutputVars = 1, NumWiresOV = [1],
      Gates = [\<lparr>GateType = GateINPUT, ConstVal = False, InFrom = []\<rparr>,
               \<lparr>GateType = GateINPUT, ConstVal = False, InFrom = []\<rparr>,
               \<lparr>GateType = GateOUTPUT, ConstVal = False, InFrom = [3]\<rparr>,
               \<lparr>GateType = GateAND, ConstVal = False, InFrom = [0, 1]\<rparr>]\<rparr>"

definition constCircuit :: Circuit where
  "constCircuit =
     \<lparr>NumInputWires = 0, NumOutputWires = 1, NumInputVars = 0, NumWiresIV = [],
      NumOutputVars = 1, NumWiresOV = [1],
      Gates = [\<lparr>GateType = GateOUTPUT, ConstVal = False, InFrom = [1]\<rparr>,
               \<lparr>GateType = GateCONST, ConstVal = True, InFrom = []\<rparr>]\<rparr>"

definition unwiredCircuit :: Circuit where
  "unwiredCircuit =
     \<lparr>NumInputWires = 0, NumOutputWires = 1, NumInputVars = 0, NumWiresIV = [],
      NumOutputVars = 1, NumWiresOV = [1],
      Gates = [\<lparr>GateType = GateOUTPUT, ConstVal = False, InFrom = []\<rparr>]\<rparr>"

definition overfullCircuit :: Circuit where
  "overfullCircuit =
     \<lparr>NumInputWires = 8, NumOutputWires = 0, NumInputVars = 2, NumWiresIV = [8, 8],
      NumOutputVars = 0, NumWiresOV = [],
      Gates = replicate 8 \<lparr>GateType = GateINPUT, ConstVal = False, InFrom = []\<rparr>\<rparr>"

text \<open>
  The reference graph the evaluator's failures travel along: an edge from a gate that
  exists, and is neither an \<open>Input\<close> nor a \<open>Const\<close> gate, to each of its predecessors.
  (An \<open>Input\<close> gate's predecessors are never visited, and the \<open>Const\<close> case of the
  \<open>switch\<close> ignores the results of the recursive calls.)
\<close>

definition deps :: "Circuit \<Rightarrow> (int \<times> int) set" where
  "deps circ = {(g, p). \<exists>gate. go_index (Gates circ) g = Some gate \<and>
      GateType gate \<noteq> GateINPUT \<and> GateType gate \<noteq> GateCONST \<and> p \<in> set (InFrom gate)}"

text \<open>The state of the memoisation: a gate is calculated; a gate is on the recursion
  stack (visited, not calculated); the calculated gates are closed under the reference
  graph; no calculated gate lies on a cycle; what a call keeps of a scratch.\<close>

definition isCalc :: "scratch \<Rightarrow> int \<Rightarrow> bool" where
  "isCalc s g = (go_index (calculated s) g = Some True)"

definition onStack :: "scratch \<Rightarrow> int \<Rightarrow> bool" where
  "onStack s g = (go_index (visited s) g = Some True \<and> go_index (calculated s) g = Some False)"

definition memo_closed :: "Circuit \<Rightarrow> scratch \<Rightarrow> bool" where
  "memo_closed circ s = (\<forall>g p. (g, p) \<in> deps circ \<longrightarrow> isCalc s g \<longrightarrow> isCalc s p)"

definition memo_acyclic :: "Circuit \<Rightarrow> scratch \<Rightarrow> bool" where
  "memo_acyclic circ s = (\<forall>g. isCalc s g \<longrightarrow> (g, g) \<notin> (deps circ)\<^sup>+)"

definition memo_kept :: "scratch \<Rightarrow> scratch \<Rightarrow> bool" where
  "memo_kept s s' = ((\<forall>g. isCalc s g \<longrightarrow> isCalc s' g) \<and> (\<forall>g. onStack s g \<longrightarrow> onStack s' g))"

text \<open>
  What keeps the traversal from panicking. The evaluator goes from a gate that is not an
  input to \<open>InFrom[0]\<close> and, when there are exactly two predecessors, to \<open>InFrom[1]\<close>. A
  gate is wired when it exists and, as an input gate, has an input bit at its index, or
  else has a first predecessor; a cone is wired when every gate the traversal can reach
  from its top is; a circuit is wired (for an input vector) when the cone of every output
  wire is. The scratch slices have the length of the gate sequence.
\<close>

definition trav :: "Circuit \<Rightarrow> (int \<times> int) set" where
  "trav circ = {(g, p). \<exists>gate. go_index (Gates circ) g = Some gate \<and>
      GateType gate \<noteq> GateINPUT \<and>
      (go_index (InFrom gate) 0 = Some p \<or>
       length (InFrom gate) = 2 \<and> go_index (InFrom gate) 1 = Some p)}"

definition gate_wired :: "Circuit \<Rightarrow> bool list \<Rightarrow> int \<Rightarrow> bool" where
  "gate_wired circ inputs g =
     (\<exists>gate. go_index (Gates circ) g = Some gate \<and>
        (if GateType gate = GateINPUT then g < int (length inputs) else InFrom gate \<noteq> []))"

definition cone_wired :: "Circuit \<Rightarrow> bool list \<Rightarrow> int \<Rightarrow> bool" where
  "cone_wired circ inputs g = (\<forall>h. (g, h) \<in> (trav circ)\<^sup>* \<longrightarrow> gate_wired circ inputs h)"

definition scratch_sized :: "Circuit \<Rightarrow> scratch \<Rightarrow> bool" where
  "scratch_sized circ s =
     (length (visited s) = length (Gates circ) \<and> length (calculated s) = length (Gates circ) \<and>
      length (values_s s) = length (Gates circ))"

definition circuit_wired :: "Circuit \<Rightarrow> bool list \<Rightarrow> bool" where
  "circuit_wired circ inputs =
     (\<forall>out. 0 \<le> out \<and> out < NumOutputWires circ \<longrightarrow>
        cone_wired circ inputs (getOutputGate circ out))"

text \<open>
  Two circuits with a reference cycle, both accepted by \<open>validCircuit\<close>. In
  \<open>cycleCircuit\<close> the cycle \<open>4 \<rightarrow> 5 \<rightarrow> 4\<close> is reached from the second output wire only,
  after the first output wire has memoised the gates \<open>3\<close> and \<open>0\<close> that gate \<open>4\<close> shares
  with it. In \<open>islandCircuit\<close> no output wire reaches the cycle \<open>2 \<rightarrow> 3 \<rightarrow> 2\<close>.
\<close>

definition cycleCircuit :: Circuit where
  "cycleCircuit =
     \<lparr>NumInputWires = 1, NumOutputWires = 2, NumInputVars = 1, NumWiresIV = [1],
      NumOutputVars = 1, NumWiresOV = [2],
      Gates = [\<lparr>GateType = GateINPUT, ConstVal = False, InFrom = []\<rparr>,
               \<lparr>GateType = GateOUTPUT, ConstVal = False, InFrom = [3]\<rparr>,
               \<lparr>GateType = GateOUTPUT, ConstVal = False, InFrom = [4]\<rparr>,
               \<lparr>GateType = GateCOPY, ConstVal = False, InFrom = [0]\<rparr>,
               \<lparr>GateType = GateAND, ConstVal = False, InFrom = [3, 5]\<rparr>,
               \<lparr>GateType = GateNOT, ConstVal = False, InFrom = [4]\<rparr>]\<rparr>"

definition islandCircuit :: Circuit where
  "islandCircuit =
     \<lparr>NumInputWires = 1, NumOutputWires = 1, NumInputVars = 1, NumWiresIV = [1],
      NumOutputVars = 1, NumWiresOV = [1],
      Gates = [\<lparr>GateType = GateINPUT, ConstVal = False, InFrom = []\<rparr>,
               \<lparr>GateType = GateOUTPUT, ConstVal = False, InFrom = [0]\<rparr>,
               \<lparr>GateType = GateNOT, ConstVal = False, InFrom = [3]\<rparr>,
               \<lparr>GateType = GateNOT, ConstVal = False, InFrom = [2]\<rparr>]\<rparr>"

text \<open>
  The packing convention in the words of the specification: wire offset \<open>j\<close> of a variable
  holds bit \<open>j mod 8\<close> of byte \<open>length - 1 - j div 8\<close> of its buffer (the last byte is the
  least significant one), and \<open>false\<close> past the end of the buffer; a variable of \<open>w\<close>
  wires takes the offsets \<open>0 .. w - 1\<close> in ascending order.
\<close>

definition wire_bit :: "byte list \<Rightarrow> nat \<Rightarrow> bool" where
  "wire_bit buf j =
     (if j div 8 < length buf then bit (buf ! (length buf - 1 - j div 8)) (j mod 8) else False)"

definition pack_var :: "byte list \<Rightarrow> int \<Rightarrow> bool list" where
  "pack_var buf w = map (wire_bit buf) [0..<nat w]"


text \<open>
  What \<open>boolArrayToBytes\<close> has built after the bits below \<open>i\<close>: the result has
  \<open>(len + 7) / 8\<close> bytes, and bit \<open>b\<close> of the byte at position \<open>p\<close> is input bit
  \<open>8 * (length - 1 - p) + b\<close> where that index is below \<open>i\<close>, and clear elsewhere.
\<close>

definition bytes_upto :: "bool list \<Rightarrow> nat \<Rightarrow> byte list \<Rightarrow> bool" where
  "bytes_upto input i result =
     (length result = (length input + 7) div 8 \<and>
      (\<forall>p < length result. \<forall>b < 8.
          bit (result ! p) b \<longleftrightarrow>
          (8 * (length result - 1 - p) + b < i \<and> input ! (8 * (length result - 1 - p) + b))))"

text \<open>
  The identity circuit on \<open>n\<close> wires: the \<open>n\<close> input gates, the \<open>n\<close> output gates, and
  one \<open>Copy\<close> gate per input wire (gate \<open>2n + i\<close> copies input \<open>i\<close>), wired to the output
  wire of the same number; the wires form one input and one output variable.
\<close>

definition identityCircuit :: "nat \<Rightarrow> Circuit" where
  "identityCircuit n =
     \<lparr>NumInputWires = int n, NumOutputWires = int n, NumInputVars = 1, NumWiresIV = [int n],
      NumOutputVars = 1, NumWiresOV = [int n],
      Gates = replicate n \<lparr>GateType = GateINPUT, ConstVal = False, InFrom = []\<rparr> @
              map (\<lambda>i. \<lparr>GateType = GateOUTPUT, ConstVal = False, InFrom = [int (2 * n + i)]\<rparr>) [0..<n] @
              map (\<lambda>i. \<lparr>GateType = GateCOPY, ConstVal = False, InFrom = [int i]\<rparr>) [0..<n]\<rparr>"

text \<open>A scratch of the identity circuit on the input \<open>bits\<close>: three slices of length
  \<open>3n\<close>, every memoised value being the input bit its gate carries.\<close>

definition memo_ok :: "nat \<Rightarrow> bool list \<Rightarrow> scratch \<Rightarrow> bool" where
  "memo_ok n bits s =
     (length (visited s) = 3 * n \<and> length (calculated s) = 3 * n \<and>
      length (values_s s) = 3 * n \<and>
      (\<forall>h < 3 * n. calculated s ! h \<longrightarrow> values_s s ! h = bits ! (h mod n)))"

text \<open>
  The round trip of the codec property: the buffers are packed, the wires evaluated and the
  output wires unpacked; a \<open>nil\<close> or an unsuccessful evaluation on the way ends it with
  \<open>nil\<close>, a panic with a panic.
\<close>

definition roundtrip :: "Circuit \<Rightarrow> byte list list \<Rightarrow> byte list list option option" where
  "roundtrip circ bufs = do {
     packed \<leftarrow> PadInputsToBoolArray circ bufs;
     case packed of
       None \<Rightarrow> Some None
     | Some inputBits \<Rightarrow> do {
         (success, outBits) \<leftarrow> EvaluateCircuit circ inputBits;
         case outBits of
           None \<Rightarrow> Some None
         | Some bits \<Rightarrow> if success then DecodeOutputVariables circ bits else Some None
       }
   }"

section \<open>Termination of the evaluator\<close>

text \<open>
  Termination. A call gets past the two checks at the top only at a gate that is not yet
  visited, and marks it; no call ever clears a mark. So the number of unvisited gates
  falls with every level of the recursion, also across the second, nested call.
\<close>

lemma go_store_SomeD:
  "go_store xs i v = Some ys \<Longrightarrow> 0 \<le> i \<and> i < int (length xs) \<and> ys = xs[nat i := v]"
  by (auto simp: go_store_def split: if_splits)

lemma go_index_SomeD:
  "go_index xs i = Some y \<Longrightarrow> 0 \<le> i \<and> i < int (length xs) \<and> y = xs ! nat i"
  by (auto simp: go_index_def split: if_splits)

lemma count_unvisited_update_le:
  "length (filter Not (xs[i := True])) \<le> length (filter Not xs)"
proof (induction xs arbitrary: i)
  case Nil
  then show ?case by simp
next
  case (Cons x xs)
  then show ?case by (cases i) (auto intro: le_SucI)
qed

lemma count_unvisited_update_less:
  "i < length xs \<Longrightarrow> \<not> xs ! i \<Longrightarrow>
   length (filter Not (xs[i := True])) < length (filter Not xs)"
proof (induction xs arbitrary: i)
  case Nil
  then show ?case by simp
next
  case (Cons x xs)
  then show ?case
    by (cases i) (auto simp: less_Suc_eq_le Suc_le_eq count_unvisited_update_le)
qed

lemma unvisited_store:
  "go_store (visited s) i True = Some vis \<Longrightarrow> unvisited (s\<lparr>visited := vis\<rparr>) \<le> unvisited s"
  by (auto simp: unvisited_def count_unvisited_update_le dest!: go_store_SomeD)

lemma unvisited_store_less:
  "go_index (visited s) i = Some False \<Longrightarrow> go_store (visited s) i True = Some vis \<Longrightarrow>
   unvisited (s\<lparr>visited := vis\<rparr>) < unvisited s"
  by (auto simp: unvisited_def count_unvisited_update_less dest!: go_store_SomeD go_index_SomeD)

lemma finishGate_visited:
  "finishGate g gateID inputs a1 b1 a2 b2 s = Some (a, b, s') \<Longrightarrow> visited s' = visited s"
  by (auto simp: finishGate_def Option.bind_eq_Some_conv split: if_splits prod.splits)

lemma evaluateGate_dom_cases:
  assumes "evaluateGate_dom (circ, gateID, s, inputs)"
    and "evaluateGate circ gateID s inputs = Some r"
  shows "(go_index (visited s) gateID = Some True \<and> go_index (calculated s) gateID = Some False \<and>
          r = (False, False, s))
       \<or> (go_index (visited s) gateID \<noteq> None \<and> go_index (calculated s) gateID = Some True \<and>
          (\<exists>x. go_index (values_s s) gateID = Some x \<and> r = (True, x, s)))
       \<or> (\<exists>vis g. go_index (visited s) gateID = Some False \<and>
            go_index (calculated s) gateID = Some False \<and>
            go_store (visited s) gateID True = Some vis \<and>
            go_index (Gates circ) gateID = Some g \<and>
            ((GateType g = GateINPUT \<and>
              finishGate g gateID inputs False False False False (s\<lparr>visited := vis\<rparr>) = Some r)
           \<or> (GateType g \<noteq> GateINPUT \<and>
               (\<exists>p0 a1 b1 s1. go_index (InFrom g) 0 = Some p0 \<and>
                  evaluateGate circ p0 (s\<lparr>visited := vis\<rparr>) inputs = Some (a1, b1, s1) \<and>
                  ((length (InFrom g) \<noteq> 2 \<and>
                    finishGate g gateID inputs a1 b1 False False s1 = Some r)
                 \<or> (length (InFrom g) = 2 \<and>
                     (\<exists>p1 a2 b2 s2. go_index (InFrom g) 1 = Some p1 \<and>
                        evaluateGate circ p1 s1 inputs = Some (a2, b2, s2) \<and>
                        finishGate g gateID inputs a1 b1 a2 b2 s2 = Some r)))))))"
  using assms(2)
  apply (subst (asm) evaluateGate.psimps[OF assms(1)])
  apply (auto simp: Option.bind_eq_Some_conv split: if_splits prod.splits)
  done

lemma evaluateGate_unvisited_dom:
  "evaluateGate_dom (circ, gateID, s, inputs) \<Longrightarrow>
   evaluateGate circ gateID s inputs = Some (a, b, s') \<Longrightarrow> unvisited s' \<le> unvisited s"
proof (induction circ gateID s inputs arbitrary: a b s' rule: evaluateGate.pinduct)
  case (1 circ gateID s inputs)
  note dom = "1.hyps"(1) and IH1 = "1.IH"(1) and IH2 = "1.IH"(2)
  from evaluateGate_dom_cases[OF dom "1.prems"]
  consider (stop) "s' = s"
    | (inp) vis g where "go_store (visited s) gateID True = Some vis"
        "finishGate g gateID inputs False False False False (s\<lparr>visited := vis\<rparr>) = Some (a, b, s')"
    | (one) vis g p0 a1 b1 s1 where
        "go_index (visited s) gateID = Some False" "go_index (calculated s) gateID = Some False"
        "go_store (visited s) gateID True = Some vis" "go_index (Gates circ) gateID = Some g"
        "GateType g \<noteq> GateINPUT" "go_index (InFrom g) 0 = Some p0"
        "evaluateGate circ p0 (s\<lparr>visited := vis\<rparr>) inputs = Some (a1, b1, s1)"
        "length (InFrom g) \<noteq> 2"
        "finishGate g gateID inputs a1 b1 False False s1 = Some (a, b, s')"
    | (two) vis g p0 a1 b1 s1 p1 a2 b2 s2 where
        "go_index (visited s) gateID = Some False" "go_index (calculated s) gateID = Some False"
        "go_store (visited s) gateID True = Some vis" "go_index (Gates circ) gateID = Some g"
        "GateType g \<noteq> GateINPUT" "go_index (InFrom g) 0 = Some p0"
        "evaluateGate circ p0 (s\<lparr>visited := vis\<rparr>) inputs = Some (a1, b1, s1)"
        "length (InFrom g) = 2" "go_index (InFrom g) 1 = Some p1"
        "evaluateGate circ p1 s1 inputs = Some (a2, b2, s2)"
        "finishGate g gateID inputs a1 b1 a2 b2 s2 = Some (a, b, s')"
    by blast
  then show ?case
  proof cases
    case stop
    then show ?thesis by simp
  next
    case inp
    then show ?thesis
      using unvisited_store[OF inp(1)] finishGate_visited[OF inp(2)]
      by (simp add: unvisited_def)
  next
    case one
    have "unvisited s1 \<le> unvisited (s\<lparr>visited := vis\<rparr>)"
      by (rule IH1[OF one(1,2) _ _ one(3,4,5,6,7)]) simp_all
    moreover have "unvisited s' = unvisited s1"
      using finishGate_visited[OF one(9)] by (simp add: unvisited_def)
    ultimately show ?thesis using unvisited_store[OF one(3)] by linarith
  next
    case two
    have "unvisited s1 \<le> unvisited (s\<lparr>visited := vis\<rparr>)"
      by (rule IH1[OF two(1,2) _ _ two(3,4,5,6,7)]) simp_all
    moreover have "unvisited s2 \<le> unvisited s1"
      by (rule IH2[OF two(1,2) _ _ two(3,4,5,6,7) _ _ two(8,9,10)]) simp_all
    moreover have "unvisited s' = unvisited s2"
      using finishGate_visited[OF two(11)] by (simp add: unvisited_def)
    ultimately show ?thesis using unvisited_store[OF two(3)] by linarith
  qed
qed

text \<open>Every argument is in the domain of \<open>evaluateGate\<close>: the termination rule of
  the function with the measure \<open>unvisited\<close>.\<close>

lemma evaluateGate_total: "All evaluateGate_dom"
proof (rule "evaluateGate.termination"
    [of "measure (\<lambda>(circ, gateID, s, inputs). unvisited s)"], goal_cases)
  case 1
  show ?case by simp
next
  case (2 circ gateID s inputs v c vis g p0)
  then show ?case by (auto intro: unvisited_store_less)
next
  case (3 circ gateID s inputs v c vis g p0 r x y xa ya p1)
  then have "unvisited ya \<le> unvisited (s\<lparr>visited := vis\<rparr>)"
    by (auto dest: evaluateGate_unvisited_dom)
  moreover have "unvisited (s\<lparr>visited := vis\<rparr>) < unvisited s"
    using 3 by (auto intro: unvisited_store_less)
  ultimately show ?case by simp
qed

termination evaluateGate
  by (rule evaluateGate_total)

text \<open>The case analysis and the measure bound, now for every call.\<close>

lemmas evaluateGate_cases = evaluateGate_dom_cases[OF evaluateGate_total[THEN spec]]

lemmas evaluateGate_unvisited = evaluateGate_unvisited_dom[OF evaluateGate_total[THEN spec]]

declare evaluateGate.simps [simp del]

section \<open>The arity table and the builder\<close>

lemma andCircuit_built:
  "do { c0 \<leftarrow> initializeCircuit emptyCircuit 2 1 1 1 [2] [1];
        (c1, g) \<leftarrow> addGate2 c0 GateAND 0 1;
        connectOutputWire c1 g 0 } = Some (andCircuit, True)"
  by (simp add: initializeCircuit_def emptyCircuit_def addGate2_def addGate_def
      connectOutputWire_def getOutputGate_def andCircuit_def go_index_def go_store_def
      min_input_wires_def max_input_wires_def GateType_defs Let_def eval_nat_numeral)

lemma constCircuit_built:
  "do { c0 \<leftarrow> initializeCircuit emptyCircuit 0 1 0 1 [] [1];
        (c1, g) \<leftarrow> addGate c0 GateCONST True [];
        connectOutputWire c1 g 0 } = Some (constCircuit, True)"
  by (simp add: initializeCircuit_def emptyCircuit_def addGate_def
      connectOutputWire_def getOutputGate_def constCircuit_def go_index_def go_store_def
      min_input_wires_def max_input_wires_def GateType_defs Let_def eval_nat_numeral)

lemma spec_arity_tables:
  assumes "spec_arity kind = Some (lo, hi)"
  shows "go_index min_input_wires kind = Some (int lo)"
    and "go_index max_input_wires kind = Some (int hi)"
  using assms
  by (auto simp: spec_arity_def GateType_defs go_index_def min_input_wires_def
      max_input_wires_def split: if_splits)

text \<open>
  C5. For each of the eight gate kinds, with the fan-in range the table gives it, and
  every predecessor list: \<open>addGate\<close> returns \<open>-1\<close> and the circuit as it was when the
  length of the list is outside the range; otherwise it appends the one new gate and
  returns its index, the old number of gates.
\<close>

theorem addGate_arity:
  assumes "spec_arity kind = Some (lo, hi)"
  shows "addGate circ kind constVal preds =
         Some (if length preds < lo \<or> hi < length preds then (circ, - 1)
               else (circ\<lparr>Gates := Gates circ @
                            [\<lparr>GateType = kind, ConstVal = constVal, InFrom = preds\<rparr>]\<rparr>,
                     int (length (Gates circ))))"
  using spec_arity_tables[OF assms]
  by (simp add: addGate_def Let_def)

theorem addGate_arity_witness:
  "spec_arity GateAND = Some (2, 2) \<and>
   addGate andCircuit GateAND False [0, 1, 2] = Some (andCircuit, - 1) \<and>
   addGate andCircuit GateAND False [0, 1] =
     Some (andCircuit\<lparr>Gates := Gates andCircuit @
             [\<lparr>GateType = GateAND, ConstVal = False, InFrom = [0, 1]\<rparr>]\<rparr>, 4)"
proof -
  have h: "spec_arity GateAND = Some (2, 2)"
    by (simp add: spec_arity_def GateType_defs)
  show ?thesis
    using h addGate_arity[OF h, of andCircuit False "[0, 1, 2]"]
      addGate_arity[OF h, of andCircuit False "[0, 1]"]
    by (simp add: andCircuit_def)
qed

text \<open>
  C6. When the targeted slot \<open>Gates[NumInputWires + outputNum]\<close> exists:
  \<open>connectOutputWire\<close> returns \<open>false\<close> and the circuit as it was if the slot already has
  a predecessor; on a slot with none it records the predecessor and returns \<open>true\<close>.
  After a wiring that returned \<open>true\<close>, every further wiring of the same slot returns
  \<open>false\<close> and changes nothing.
\<close>

theorem connectOutputWire_once:
  assumes "go_index (Gates circ) (getOutputGate circ outputNum) = Some g"
  shows "connectOutputWire circ gateNum outputNum =
           Some (if InFrom g = []
                 then (circ\<lparr>Gates := (Gates circ)[nat (getOutputGate circ outputNum) :=
                                       g\<lparr>InFrom := [gateNum]\<rparr>]\<rparr>, True)
                 else (circ, False)) \<and>
         (\<forall>circ' gateNum'. connectOutputWire circ gateNum outputNum = Some (circ', True) \<longrightarrow>
            connectOutputWire circ' gateNum' outputNum = Some (circ', False))"
  using assms
  by (auto simp: connectOutputWire_def go_index_def go_store_def getOutputGate_def
      split: if_splits)

theorem connectOutputWire_once_witness:
  "go_index (Gates (andCircuit\<lparr>Gates := (Gates andCircuit)[2 :=
       \<lparr>GateType = GateOUTPUT, ConstVal = False, InFrom = []\<rparr>]\<rparr>))
     (getOutputGate andCircuit 0) =
     Some \<lparr>GateType = GateOUTPUT, ConstVal = False, InFrom = []\<rparr> \<and>
   connectOutputWire (andCircuit\<lparr>Gates := (Gates andCircuit)[2 :=
       \<lparr>GateType = GateOUTPUT, ConstVal = False, InFrom = []\<rparr>]\<rparr>) 3 0 =
     Some (andCircuit, True) \<and>
   connectOutputWire andCircuit 0 0 = Some (andCircuit, False)"
proof -
  let ?c = "andCircuit\<lparr>Gates := (Gates andCircuit)[2 :=
       \<lparr>GateType = GateOUTPUT, ConstVal = False, InFrom = []\<rparr>]\<rparr>"
  have h: "go_index (Gates ?c) (getOutputGate ?c 0) =
     Some \<lparr>GateType = GateOUTPUT, ConstVal = False, InFrom = []\<rparr>"
    by (simp add: andCircuit_def getOutputGate_def go_index_def)
  have c: "connectOutputWire ?c 3 0 = Some (andCircuit, True)"
    using connectOutputWire_once[OF h, of 3]
    by (simp add: andCircuit_def getOutputGate_def)
  have "connectOutputWire andCircuit 0 0 = Some (andCircuit, False)"
    using connectOutputWire_once[OF h, of 3] c by simp
  with h c show ?thesis
    by (simp add: getOutputGate_def)
qed

section \<open>The validator\<close>

lemma validGates_eq:
  "\<forall>g \<in> set gs. spec_arity (GateType g) \<noteq> None \<Longrightarrow>
   validGates gs = Some (\<forall>g \<in> set gs. fanin_in_range g)"
proof (induction gs)
  case Nil
  then show ?case by simp
next
  case (Cons g gs)
  then obtain lo hi where a: "spec_arity (GateType g) = Some (lo, hi)"
    by auto
  from Cons have IH: "validGates gs = Some (\<forall>g \<in> set gs. fanin_in_range g)"
    by simp
  show ?case
    using spec_arity_tables[OF a] IH
    by (auto simp: fanin_in_range_def a)
qed

lemma go_int_exact:
  "- (2 ^ 63) \<le> x \<Longrightarrow> x < 2 ^ 63 \<Longrightarrow> go_int x = x"
  by (simp add: go_int_def)

lemma go_int_range:
  "- (2 ^ 63) \<le> go_int x \<and> go_int x < 2 ^ 63"
  by (simp add: go_int_def)

text \<open>
  The sum of the wire counts wraps: a circuit with no gate that asks for \<open>2^63 - 1\<close>
  input wires and one output wire is accepted, and the circuit that
  \<open>initializeCircuit\<close> builds for \<open>-2^63\<close> input wires and \<open>-1\<close> output wires (no gate,
  both loops are empty) is refused.
\<close>

lemma validCircuit_wraps:
  "validCircuit (emptyCircuit\<lparr>NumInputWires := 2 ^ 63 - 1, NumOutputWires := 1\<rparr>) = Some True \<and>
   initializeCircuit emptyCircuit (- (2 ^ 63)) (- 1) 0 0 [] [] =
     Some (emptyCircuit\<lparr>NumInputWires := - (2 ^ 63), NumOutputWires := - 1\<rparr>) \<and>
   validCircuit (emptyCircuit\<lparr>NumInputWires := - (2 ^ 63), NumOutputWires := - 1\<rparr>) =
     Some False"
  by (simp add: validCircuit_def initializeCircuit_def emptyCircuit_def go_int_def)

text \<open>
  C8. For every circuit whose gates are of the eight kinds, \<open>validCircuit\<close> returns
  \<open>false\<close> exactly when there are fewer gates than \<open>NumInputWires + NumOutputWires\<close>, the
  sum as the machine forms it, or some gate's fan-in is outside the range of its kind,
  and \<open>true\<close> otherwise. Whenever the exact sum of the two wire counts is a 64-bit
  integer, the machine sum is the exact one. The function reads the circuit and writes
  nothing: its Go result is its whole result, the same at every call on the same
  circuit.
\<close>

theorem validCircuit_iff:
  assumes "\<forall>g \<in> set (Gates circ). spec_arity (GateType g) \<noteq> None"
  shows "validCircuit circ =
           Some (\<not> (int (length (Gates circ)) <
                      go_int (NumInputWires circ + NumOutputWires circ) \<or>
                    (\<exists>g \<in> set (Gates circ). \<not> fanin_in_range g))) \<and>
         (- (2 ^ 63) \<le> NumInputWires circ + NumOutputWires circ \<and>
          NumInputWires circ + NumOutputWires circ < 2 ^ 63 \<longrightarrow>
          validCircuit circ =
           Some (\<not> (int (length (Gates circ)) < NumInputWires circ + NumOutputWires circ \<or>
                    (\<exists>g \<in> set (Gates circ). \<not> fanin_in_range g))))"
  using validGates_eq[OF assms] by (simp add: validCircuit_def go_int_exact)

theorem validCircuit_iff_witness:
  "map (\<lambda>g. spec_arity (GateType g)) (Gates andCircuit) =
     [Some (0, 0), Some (0, 0), Some (0, 1), Some (2, 2)] \<and>
   NumInputWires andCircuit + NumOutputWires andCircuit = 3 \<and>
   validCircuit andCircuit = Some True \<and>
   validCircuit (andCircuit\<lparr>NumOutputWires := 3\<rparr>) = Some False \<and>
   validCircuit (andCircuit\<lparr>Gates := Gates andCircuit @
       [\<lparr>GateType = GateNOT, ConstVal = False, InFrom = [0, 1]\<rparr>]\<rparr>) = Some False \<and>
   validCircuit (andCircuit\<lparr>NumInputWires := 2 ^ 63 - 1\<rparr>) = Some True"
proof -
  let ?c = "andCircuit\<lparr>Gates := Gates andCircuit @
       [\<lparr>GateType = GateNOT, ConstVal = False, InFrom = [0, 1]\<rparr>]\<rparr>"
  have h: "\<forall>g \<in> set (Gates andCircuit). spec_arity (GateType g) \<noteq> None"
    by (simp add: andCircuit_def spec_arity_def GateType_defs)
  have h': "\<forall>g \<in> set (Gates (andCircuit\<lparr>NumOutputWires := 3\<rparr>)).
              spec_arity (GateType g) \<noteq> None"
    using h by simp
  have h'': "\<forall>g \<in> set (Gates ?c). spec_arity (GateType g) \<noteq> None"
    using h by (simp add: spec_arity_def GateType_defs)
  have h''': "\<forall>g \<in> set (Gates (andCircuit\<lparr>NumInputWires := 2 ^ 63 - 1\<rparr>)).
              spec_arity (GateType g) \<noteq> None"
    using h by simp
  have s: "NumInputWires andCircuit + NumOutputWires andCircuit = 3"
    by (simp add: andCircuit_def)
  have a: "validCircuit andCircuit = Some True"
    using validCircuit_iff[OF h] s
    by (simp add: andCircuit_def fanin_in_range_def spec_arity_def GateType_defs go_int_def)
  have b: "validCircuit (andCircuit\<lparr>NumOutputWires := 3\<rparr>) = Some False"
    using validCircuit_iff[OF h']
    by (simp add: andCircuit_def fanin_in_range_def spec_arity_def GateType_defs go_int_def)
  have c: "validCircuit ?c = Some False"
    using validCircuit_iff[OF h'']
    by (simp add: andCircuit_def fanin_in_range_def spec_arity_def GateType_defs go_int_def)
  have d: "validCircuit (andCircuit\<lparr>NumInputWires := 2 ^ 63 - 1\<rparr>) = Some True"
    using validCircuit_iff[OF h''']
    by (simp add: andCircuit_def fanin_in_range_def spec_arity_def GateType_defs go_int_def)
  from h s a b c d show ?thesis
    by (simp add: andCircuit_def spec_arity_def GateType_defs)
qed

section \<open>The evaluator\<close>

text \<open>
  C7. For every circuit and every input vector whose length is not \<open>NumInputWires\<close>
  (shorter or longer), and for every circuit with fewer than one output wire,
  \<open>EvaluateCircuit\<close> returns \<open>(false, nil)\<close>: it does not panic, and the result does not
  depend on the gates, none of which is evaluated.
\<close>

theorem EvaluateCircuit_shape:
  assumes "int (length inputBits) \<noteq> NumInputWires circ \<or> NumOutputWires circ < 1"
  shows "EvaluateCircuit circ inputBits = Some (False, None)"
  using assms by (simp add: EvaluateCircuit_def)

theorem EvaluateCircuit_shape_witness:
  "EvaluateCircuit andCircuit [True] = Some (False, None) \<and>
   EvaluateCircuit andCircuit [True, False, True] = Some (False, None) \<and>
   EvaluateCircuit (andCircuit\<lparr>NumOutputWires := 0\<rparr>) [True, False] = Some (False, None)"
  using EvaluateCircuit_shape[of "[True]" andCircuit]
    EvaluateCircuit_shape[of "[True, False, True]" andCircuit]
    EvaluateCircuit_shape[of "[True, False]" "andCircuit\<lparr>NumOutputWires := 0\<rparr>"]
  by (simp add: andCircuit_def)

text \<open>
  A gate that is not an input and has no predecessor makes \<open>evaluateGate\<close> panic at
  \<open>InFrom[0]\<close>, whatever its kind: the recursion into the first predecessor comes before
  the \<open>switch\<close>.
\<close>

lemma evaluateGate_empty_InFrom:
  assumes "go_index (visited s) gateID = Some False"
    and "go_index (calculated s) gateID = Some False"
    and "go_index (Gates circ) gateID = Some g"
    and "GateType g \<noteq> GateINPUT" and "InFrom g = []"
  shows "evaluateGate circ gateID s inputs = None"
proof -
  from assms(1) have "go_store (visited s) gateID True = Some ((visited s)[nat gateID := True])"
    by (auto simp: go_index_def go_store_def split: if_splits)
  with assms show ?thesis
    by (subst evaluateGate.simps) (simp add: go_index_def)
qed

text \<open>
  C1. The circuit with no input, one output wire and one \<open>Const\<close> gate (constant
  \<open>true\<close>, no predecessor) wired to the output passes \<open>validCircuit\<close>. Its evaluation
  does not return \<open>(true, [true])\<close>: it panics at \<open>InFrom[0]\<close> of the \<open>Const\<close> gate.
\<close>

theorem const_gate_panics:
  "validCircuit constCircuit = Some True \<and> EvaluateCircuit constCircuit [] = None"
  by code_simp

text \<open>
  C9. The circuit that \<open>initializeCircuit\<close> gives for no input wire and one output wire
  has an \<open>Output\<close> gate with no predecessor yet. \<open>validCircuit\<close> accepts it, and its
  evaluation panics at \<open>InFrom[0]\<close> of that gate instead of returning \<open>(false, nil)\<close>.
\<close>

theorem unwired_output_panics:
  "initializeCircuit emptyCircuit 0 1 0 1 [] [1] = Some unwiredCircuit \<and>
   validCircuit unwiredCircuit = Some True \<and>
   go_index (Gates unwiredCircuit) (getOutputGate unwiredCircuit 0) =
     Some \<lparr>GateType = GateOUTPUT, ConstVal = False, InFrom = []\<rparr> \<and>
   EvaluateCircuit unwiredCircuit [] = None"
  by code_simp

subsection \<open>Reference cycles\<close>

text \<open>
  An induction rule over the runs of \<open>evaluateGate\<close> that return: one case for each way
  through the function, with the property for the recursive calls as hypotheses.
\<close>

lemma evaluateGate_run_induct [consumes 1, case_names cycle cached input one two]:
  assumes run: "evaluateGate circ gateID s inputs = Some (a, b, s')"
    and cycle: "\<And>gateID s.
        \<lbrakk>go_index (visited s) gateID = Some True; go_index (calculated s) gateID = Some False\<rbrakk>
        \<Longrightarrow> P gateID s False False s"
    and cached: "\<And>gateID s x.
        \<lbrakk>go_index (visited s) gateID \<noteq> None; go_index (calculated s) gateID = Some True;
         go_index (values_s s) gateID = Some x\<rbrakk>
        \<Longrightarrow> P gateID s True x s"
    and input: "\<And>gateID s vis g a b s'.
        \<lbrakk>go_index (visited s) gateID = Some False; go_index (calculated s) gateID = Some False;
         go_store (visited s) gateID True = Some vis; go_index (Gates circ) gateID = Some g;
         GateType g = GateINPUT;
         finishGate g gateID inputs False False False False (s\<lparr>visited := vis\<rparr>) = Some (a, b, s')\<rbrakk>
        \<Longrightarrow> P gateID s a b s'"
    and one: "\<And>gateID s vis g p0 a1 b1 s1 a b s'.
        \<lbrakk>go_index (visited s) gateID = Some False; go_index (calculated s) gateID = Some False;
         go_store (visited s) gateID True = Some vis; go_index (Gates circ) gateID = Some g;
         GateType g \<noteq> GateINPUT; go_index (InFrom g) 0 = Some p0;
         evaluateGate circ p0 (s\<lparr>visited := vis\<rparr>) inputs = Some (a1, b1, s1);
         P p0 (s\<lparr>visited := vis\<rparr>) a1 b1 s1;
         length (InFrom g) \<noteq> 2;
         finishGate g gateID inputs a1 b1 False False s1 = Some (a, b, s')\<rbrakk>
        \<Longrightarrow> P gateID s a b s'"
    and two: "\<And>gateID s vis g p0 a1 b1 s1 p1 a2 b2 s2 a b s'.
        \<lbrakk>go_index (visited s) gateID = Some False; go_index (calculated s) gateID = Some False;
         go_store (visited s) gateID True = Some vis; go_index (Gates circ) gateID = Some g;
         GateType g \<noteq> GateINPUT; go_index (InFrom g) 0 = Some p0;
         evaluateGate circ p0 (s\<lparr>visited := vis\<rparr>) inputs = Some (a1, b1, s1);
         P p0 (s\<lparr>visited := vis\<rparr>) a1 b1 s1;
         length (InFrom g) = 2; go_index (InFrom g) 1 = Some p1;
         evaluateGate circ p1 s1 inputs = Some (a2, b2, s2);
         P p1 s1 a2 b2 s2;
         finishGate g gateID inputs a1 b1 a2 b2 s2 = Some (a, b, s')\<rbrakk>
        \<Longrightarrow> P gateID s a b s'"
  shows "P gateID s a b s'"
  using run
proof (induction "unvisited s" arbitrary: gateID s a b s' rule: less_induct)
  case less
  note IH = less.hyps
  from evaluateGate_cases[OF less.prems]
  consider (c) "go_index (visited s) gateID = Some True" "go_index (calculated s) gateID = Some False"
        "a = False" "b = False" "s' = s"
    | (m) "go_index (visited s) gateID \<noteq> None" "go_index (calculated s) gateID = Some True"
        "go_index (values_s s) gateID = Some b" "a = True" "s' = s"
    | (i) vis g where
        "go_index (visited s) gateID = Some False" "go_index (calculated s) gateID = Some False"
        "go_store (visited s) gateID True = Some vis" "go_index (Gates circ) gateID = Some g"
        "GateType g = GateINPUT"
        "finishGate g gateID inputs False False False False (s\<lparr>visited := vis\<rparr>) = Some (a, b, s')"
    | (o) vis g p0 a1 b1 s1 where
        "go_index (visited s) gateID = Some False" "go_index (calculated s) gateID = Some False"
        "go_store (visited s) gateID True = Some vis" "go_index (Gates circ) gateID = Some g"
        "GateType g \<noteq> GateINPUT" "go_index (InFrom g) 0 = Some p0"
        "evaluateGate circ p0 (s\<lparr>visited := vis\<rparr>) inputs = Some (a1, b1, s1)"
        "length (InFrom g) \<noteq> 2"
        "finishGate g gateID inputs a1 b1 False False s1 = Some (a, b, s')"
    | (t) vis g p0 a1 b1 s1 p1 a2 b2 s2 where
        "go_index (visited s) gateID = Some False" "go_index (calculated s) gateID = Some False"
        "go_store (visited s) gateID True = Some vis" "go_index (Gates circ) gateID = Some g"
        "GateType g \<noteq> GateINPUT" "go_index (InFrom g) 0 = Some p0"
        "evaluateGate circ p0 (s\<lparr>visited := vis\<rparr>) inputs = Some (a1, b1, s1)"
        "length (InFrom g) = 2" "go_index (InFrom g) 1 = Some p1"
        "evaluateGate circ p1 s1 inputs = Some (a2, b2, s2)"
        "finishGate g gateID inputs a1 b1 a2 b2 s2 = Some (a, b, s')"
    by blast
  then show ?case
  proof cases
    case c
    then show ?thesis using cycle by simp
  next
    case m
    then show ?thesis using cached by simp
  next
    case i
    then show ?thesis using input by blast
  next
    case o
    have "P p0 (s\<lparr>visited := vis\<rparr>) a1 b1 s1"
      by (rule IH[OF unvisited_store_less[OF o(1,3)] o(7)])
    with o show ?thesis using one by blast
  next
    case t
    have "P p0 (s\<lparr>visited := vis\<rparr>) a1 b1 s1"
      by (rule IH[OF unvisited_store_less[OF t(1,3)] t(7)])
    moreover have "unvisited s1 < unvisited s"
      using evaluateGate_unvisited[OF t(7)] unvisited_store_less[OF t(1,3)] by simp
    then have "P p1 s1 a2 b2 s2"
      by (rule IH[OF _ t(10)])
    ultimately show ?thesis using t two by blast
  qed
qed

lemma memo_kept_refl: "memo_kept s s"
  by (simp add: memo_kept_def)

lemma memo_kept_trans: "memo_kept s s1 \<Longrightarrow> memo_kept s1 s2 \<Longrightarrow> memo_kept s s2"
  by (simp add: memo_kept_def)

lemma memo_closed_reach:
  assumes "memo_closed circ s" and "(g, h) \<in> (deps circ)\<^sup>*" and "isCalc s g"
  shows "isCalc s h"
  using assms(2,3)
proof (induction rule: rtrancl_induct)
  case base
  then show ?case .
next
  case (step y z)
  with assms(1) show ?case by (auto simp: memo_closed_def)
qed

lemma finishGate_result:
  assumes "finishGate g gateID inputs a1 b1 a2 b2 s = Some (a, b, s')"
  shows "visited s' = visited s"
    and "\<not> a \<Longrightarrow> s' = s"
    and "a \<Longrightarrow> 0 \<le> gateID \<and> gateID < int (length (calculated s)) \<and>
           calculated s' = (calculated s)[nat gateID := True]"
  using assms
  by (auto simp: finishGate_def Option.bind_eq_Some_conv split: if_splits prod.splits
      dest!: go_store_SomeD)

lemma finishGate_success:
  assumes "finishGate g gateID inputs a1 b1 a2 b2 s = Some (True, b, s')"
    and "GateType g \<noteq> GateINPUT" and "GateType g \<noteq> GateCONST"
  shows "(length (InFrom g) = 1 \<and> a1) \<or> (length (InFrom g) = 2 \<and> a1 \<and> a2)"
  using assms
  by (auto simp: finishGate_def gateSwitch_def Let_def Option.bind_eq_Some_conv
      split: if_splits prod.splits)


lemma finishGate_invariants:
  assumes closed: "memo_closed circ s" and acyc: "memo_acyclic circ s"
    and fin: "finishGate g gateID inputs a1 b1 a2 b2 s = Some (a, b, s')"
    and gate: "go_index (Gates circ) gateID = Some g"
    and stack: "onStack s gateID"
    and preds: "\<lbrakk>a; GateType g \<noteq> GateINPUT; GateType g \<noteq> GateCONST\<rbrakk>
                \<Longrightarrow> \<forall>p \<in> set (InFrom g). isCalc s p"
  shows "memo_closed circ s' \<and> memo_acyclic circ s' \<and> (a \<longrightarrow> isCalc s' gateID) \<and>
      (\<forall>h. isCalc s h \<longrightarrow> isCalc s' h) \<and> (\<forall>h. h \<noteq> gateID \<longrightarrow> onStack s h \<longrightarrow> onStack s' h)"
proof (cases a)
    case False
    with finishGate_result(2)[OF fin] closed acyc
    show ?thesis
      by simp
next
    case True
    from finishGate_result(1,3)[OF fin] True
    have vis: "visited s' = visited s" and rng: "0 \<le> gateID" "gateID < int (length (calculated s))"
      and cal: "calculated s' = (calculated s)[nat gateID := True]"
      by simp_all
    have calc_iff: "isCalc s' x \<longleftrightarrow> x = gateID \<or> isCalc s x" for x
      using rng by (auto simp: isCalc_def go_index_def cal nth_list_update)
    have edge: "isCalc s p" if "(gateID, p) \<in> deps circ" for p
    proof -
      from that gate have "GateType g \<noteq> GateINPUT" "GateType g \<noteq> GateCONST" "p \<in> set (InFrom g)"
        by (auto simp: deps_def)
      with preds True show ?thesis by blast
    qed
    have c: "memo_closed circ s'"
      unfolding memo_closed_def
    proof (intro allI impI)
      fix x p assume e: "(x, p) \<in> deps circ" and "isCalc s' x"
      then consider "x = gateID" | "isCalc s x" by (auto simp: calc_iff)
      then show "isCalc s' p"
      proof cases
        case 1
        with e edge show ?thesis by (auto simp: calc_iff)
      next
        case 2
        with e closed show ?thesis by (auto simp: calc_iff memo_closed_def)
      qed
    qed
    have no_loop: "(gateID, gateID) \<notin> (deps circ)\<^sup>+"
    proof
      assume "(gateID, gateID) \<in> (deps circ)\<^sup>+"
      then obtain p where "(gateID, p) \<in> deps circ" "(p, gateID) \<in> (deps circ)\<^sup>*"
        by (auto dest: tranclD)
      with edge memo_closed_reach[OF closed] have "isCalc s gateID" by blast
      with stack show False by (simp add: isCalc_def onStack_def)
    qed
    have a: "memo_acyclic circ s'"
      using acyc no_loop by (auto simp: memo_acyclic_def calc_iff)
    have k: "\<forall>h. h \<noteq> gateID \<longrightarrow> onStack s h \<longrightarrow> onStack s' h"
      using rng by (auto simp: onStack_def go_index_def vis cal nth_list_update)
    from c a k True
    show ?thesis
      by (simp add: calc_iff)
qed


lemma mark_visited:
  assumes "go_index (visited s) gateID = Some False"
    and "go_index (calculated s) gateID = Some False"
    and "go_store (visited s) gateID True = Some vis"
  shows "onStack (s\<lparr>visited := vis\<rparr>) gateID"
    and "memo_kept s (s\<lparr>visited := vis\<rparr>)"
    and "\<not> onStack s gateID"
    and "memo_closed circ (s\<lparr>visited := vis\<rparr>) = memo_closed circ s"
    and "memo_acyclic circ (s\<lparr>visited := vis\<rparr>) = memo_acyclic circ s"
  using assms
  by (auto simp: onStack_def memo_kept_def memo_closed_def memo_acyclic_def isCalc_def
      go_index_def go_store_def nth_list_update split: if_splits)

lemma InFrom_one:
  "go_index xs 0 = Some p0 \<Longrightarrow> length xs = 1 \<Longrightarrow> set xs = {p0}"
  by (cases xs) (auto simp: go_index_def)

lemma InFrom_two:
  "go_index xs 0 = Some p0 \<Longrightarrow> go_index xs 1 = Some p1 \<Longrightarrow> length xs = 2 \<Longrightarrow> set xs = {p0, p1}"
  by (cases xs; cases "tl xs") (auto simp: go_index_def)

lemma evaluateGate_invariants:
  assumes "evaluateGate circ gateID s inputs = Some (a, b, s')"
  shows "memo_closed circ s \<longrightarrow> memo_acyclic circ s \<longrightarrow>
         memo_closed circ s' \<and> memo_acyclic circ s' \<and> (a \<longrightarrow> isCalc s' gateID) \<and> memo_kept s s'"
  using assms
proof (induction rule: evaluateGate_run_induct)
  case (cycle gateID s)
  then show ?case by (simp add: memo_kept_refl)
next
  case (cached gateID s x)
  then show ?case by (simp add: memo_kept_refl isCalc_def)
next
  case (input gateID s vis g a b s')
  note mv = mark_visited[OF input.hyps(1,2,3)]
  show ?case
  proof (intro impI)
    assume ca: "memo_closed circ s" "memo_acyclic circ s"
    then have ca0: "memo_closed circ (s\<lparr>visited := vis\<rparr>)" "memo_acyclic circ (s\<lparr>visited := vis\<rparr>)"
      by (simp_all add: mv(4,5))
    from finishGate_invariants[OF ca0 input.hyps(6,4) mv(1)] input.hyps(5)
    have f: "memo_closed circ s' \<and> memo_acyclic circ s' \<and> (a \<longrightarrow> isCalc s' gateID) \<and>
      (\<forall>h. isCalc (s\<lparr>visited := vis\<rparr>) h \<longrightarrow> isCalc s' h) \<and>
      (\<forall>h. h \<noteq> gateID \<longrightarrow> onStack (s\<lparr>visited := vis\<rparr>) h \<longrightarrow> onStack s' h)"
      by simp
    then have "memo_kept s s'"
      using mv(2,3) by (auto simp: memo_kept_def)
    with f show "memo_closed circ s' \<and> memo_acyclic circ s' \<and> (a \<longrightarrow> isCalc s' gateID) \<and>
      memo_kept s s'"
      by simp
  qed
next
  case (one gateID s vis g p0 a1 b1 s1 a b s')
  note mv = mark_visited[OF one.hyps(1,2,3)]
  show ?case
  proof (intro impI)
    assume ca: "memo_closed circ s" "memo_acyclic circ s"
    then have ca0: "memo_closed circ (s\<lparr>visited := vis\<rparr>)" "memo_acyclic circ (s\<lparr>visited := vis\<rparr>)"
      by (simp_all add: mv(4,5))
    with one.IH have ih: "memo_closed circ s1" "memo_acyclic circ s1" "a1 \<longrightarrow> isCalc s1 p0"
      "memo_kept (s\<lparr>visited := vis\<rparr>) s1"
      by simp_all
    have st: "onStack s1 gateID"
      using ih(4) mv(1) by (simp add: memo_kept_def)
    have preds: "\<forall>p \<in> set (InFrom g). isCalc s1 p"
      if "a" "GateType g \<noteq> GateINPUT" "GateType g \<noteq> GateCONST"
    proof -
      from one.hyps(9) that(1)
      have "finishGate g gateID inputs a1 b1 False False s1 = Some (True, b, s')" by simp
      from finishGate_success[OF this that(2,3)] one.hyps(8)
      have "length (InFrom g) = 1" "a1" by auto
      with InFrom_one[OF one.hyps(6)] ih(3) show ?thesis by simp
    qed
    from finishGate_invariants[OF ih(1,2) one.hyps(9,4) st preds]
    have f: "memo_closed circ s' \<and> memo_acyclic circ s' \<and> (a \<longrightarrow> isCalc s' gateID) \<and>
      (\<forall>h. isCalc s1 h \<longrightarrow> isCalc s' h) \<and> (\<forall>h. h \<noteq> gateID \<longrightarrow> onStack s1 h \<longrightarrow> onStack s' h)"
      by simp
    then have "memo_kept s s'"
      using mv(2,3) ih(4) by (auto simp: memo_kept_def)
    with f show "memo_closed circ s' \<and> memo_acyclic circ s' \<and> (a \<longrightarrow> isCalc s' gateID) \<and>
      memo_kept s s'"
      by simp
  qed
next
  case (two gateID s vis g p0 a1 b1 s1 p1 a2 b2 s2 a b s')
  note mv = mark_visited[OF two.hyps(1,2,3)]
  show ?case
  proof (intro impI)
    assume ca: "memo_closed circ s" "memo_acyclic circ s"
    then have ca0: "memo_closed circ (s\<lparr>visited := vis\<rparr>)" "memo_acyclic circ (s\<lparr>visited := vis\<rparr>)"
      by (simp_all add: mv(4,5))
    with two.IH(1) have ih1: "memo_closed circ s1" "memo_acyclic circ s1" "a1 \<longrightarrow> isCalc s1 p0"
      "memo_kept (s\<lparr>visited := vis\<rparr>) s1"
      by simp_all
    with two.IH(2) have ih2: "memo_closed circ s2" "memo_acyclic circ s2" "a2 \<longrightarrow> isCalc s2 p1"
      "memo_kept s1 s2"
      by simp_all
    have st: "onStack s2 gateID"
      using ih1(4) ih2(4) mv(1) by (simp add: memo_kept_def)
    have preds: "\<forall>p \<in> set (InFrom g). isCalc s2 p"
      if "a" "GateType g \<noteq> GateINPUT" "GateType g \<noteq> GateCONST"
    proof -
      from two.hyps(11) that(1)
      have "finishGate g gateID inputs a1 b1 a2 b2 s2 = Some (True, b, s')" by simp
      from finishGate_success[OF this that(2,3)] two.hyps(8)
      have "a1" "a2" by auto
      with InFrom_two[OF two.hyps(6,9,8)] ih1(3) ih2(3,4) show ?thesis
        by (simp add: memo_kept_def)
    qed
    from finishGate_invariants[OF ih2(1,2) two.hyps(11,4) st preds]
    have f: "memo_closed circ s' \<and> memo_acyclic circ s' \<and> (a \<longrightarrow> isCalc s' gateID) \<and>
      (\<forall>h. isCalc s2 h \<longrightarrow> isCalc s' h) \<and> (\<forall>h. h \<noteq> gateID \<longrightarrow> onStack s2 h \<longrightarrow> onStack s' h)"
      by simp
    then have "memo_kept s s'"
      using mv(2,3) ih1(4) ih2(4) by (auto simp: memo_kept_def)
    with f show "memo_closed circ s' \<and> memo_acyclic circ s' \<and> (a \<longrightarrow> isCalc s' gateID) \<and>
      memo_kept s s'"
      by simp
  qed
qed


lemma evalOutputs_shape:
  "evalOutputs circ inputBits i s result = Some r \<Longrightarrow>
   r = (False, None) \<or> (\<exists>bits. r = (True, Some bits))"
proof (induction circ inputBits i s result rule: evalOutputs.induct)
  case (1 circ inputBits i s result)
  from "1.prems" show ?case
    apply (subst (asm) evalOutputs.simps)
    apply (auto simp: Option.bind_eq_Some_conv split: if_splits prod.splits dest: "1.IH")
    done
qed

lemma evalOutputs_cycle:
  assumes "memo_closed circ s" and "memo_acyclic circ s"
    and "i \<le> out" and "out < NumOutputWires circ"
    and "(getOutputGate circ out, h) \<in> (deps circ)\<^sup>*" and "(h, h) \<in> (deps circ)\<^sup>+"
  shows "evalOutputs circ inputBits i s result \<noteq> Some (True, r)"
  using assms
proof (induction circ inputBits i s result rule: evalOutputs.induct)
  case (1 circ inputBits i s result)
  let ?s0 = "s\<lparr>visited := map (\<lambda>_. False) (visited s)\<rparr>"
  have inv0: "memo_closed circ ?s0" "memo_acyclic circ ?s0"
    using "1.prems"(1,2) by (simp_all add: memo_closed_def memo_acyclic_def isCalc_def)
  show ?case
  proof
    assume run: "evalOutputs circ inputBits i s result = Some (True, r)"
    from "1.prems"(3,4) have lt: "i < NumOutputWires circ" by simp
    from run lt obtain a b s' result' where
      ev: "evaluateGate circ (getOutputGate circ i) ?s0 inputBits = Some (a, b, s')"
      and st: "go_store result i b = Some result'"
      and a: "a" and rest: "evalOutputs circ inputBits (i + 1) s' result' = Some (True, r)"
      by (subst (asm) evalOutputs.simps)
        (auto simp: Option.bind_eq_Some_conv split: if_splits prod.splits)
    from evaluateGate_invariants[OF ev] inv0 a
    have inv: "memo_closed circ s'" "memo_acyclic circ s'" "isCalc s' (getOutputGate circ i)"
      by simp_all
    show False
    proof (cases "i = out")
      case True
      with memo_closed_reach[OF inv(1) "1.prems"(5)] inv(3) have "isCalc s' h" by simp
      with inv(2) "1.prems"(6) show False by (simp add: memo_acyclic_def)
    next
      case False
      with "1.prems"(3) have "i + 1 \<le> out" by simp
      from "1.IH"[OF lt ev refl refl st _ inv(1,2) this "1.prems"(4,5,6)] a rest
      show False by simp
    qed
  qed
qed

text \<open>
  No panic in a wired cone: \<open>evaluateGate\<close> returns, and leaves scratch slices of the
  same lengths.
\<close>

lemma cone_wired_step:
  "cone_wired circ inputs g \<Longrightarrow> (g, p) \<in> trav circ \<Longrightarrow> cone_wired circ inputs p"
  by (auto simp: cone_wired_def intro: converse_rtrancl_into_rtrancl)

lemma cone_wired_self: "cone_wired circ inputs g \<Longrightarrow> gate_wired circ inputs g"
  by (simp add: cone_wired_def)

lemma gateSwitch_returns:
  "GateType gate \<noteq> GateINPUT \<Longrightarrow> \<exists>r. gateSwitch gate g inputs a1 b1 a2 b2 = Some r"
  by (auto simp: gateSwitch_def Let_def)

lemma finishGate_returns:
  assumes "scratch_sized circ s" and "0 \<le> g" and "g < int (length (Gates circ))"
    and "GateType gate = GateINPUT \<longrightarrow> g < int (length inputs)"
  shows "\<exists>a b s'. finishGate gate g inputs a1 b1 a2 b2 s = Some (a, b, s') \<and>
                  scratch_sized circ s'"
proof -
  obtain a b where sw: "gateSwitch gate g inputs a1 b1 a2 b2 = Some (a, b)"
  proof (cases "GateType gate = GateINPUT")
    case True
    with assms(2,4) that show ?thesis
      by (auto simp: gateSwitch_def go_index_def)
  next
    case False
    from gateSwitch_returns[OF this] that show ?thesis by fastforce
  qed
  show ?thesis
    using assms(1,2,3)
    by (cases a) (auto simp: finishGate_def sw go_store_def scratch_sized_def)
qed

lemma evaluateGate_returns:
  assumes "scratch_sized circ s" and "cone_wired circ inputs g"
  shows "\<exists>a b s'. evaluateGate circ g s inputs = Some (a, b, s') \<and> scratch_sized circ s'"
  using assms
proof (induction "unvisited s" arbitrary: g s rule: less_induct)
  case less
  note sz = less.prems(1)
  from cone_wired_self[OF less.prems(2)] obtain gate where
    gate: "go_index (Gates circ) g = Some gate"
    and wired: "if GateType gate = GateINPUT then g < int (length inputs) else InFrom gate \<noteq> []"
    by (auto simp: gate_wired_def)
  from gate have rng: "0 \<le> g" "g < int (length (Gates circ))"
    by (auto dest: go_index_SomeD)
  have ix: "go_index (visited s) g = Some (visited s ! nat g)"
    "go_index (calculated s) g = Some (calculated s ! nat g)"
    "go_index (values_s s) g = Some (values_s s ! nat g)"
    using rng sz by (simp_all add: go_index_def scratch_sized_def)
  show ?case
  proof (cases "calculated s ! nat g")
    case True
    then show ?thesis
      using sz by (subst evaluateGate.simps) (auto simp: ix)
  next
    case notcalc: False
    show ?thesis
    proof (cases "visited s ! nat g")
      case True
      then show ?thesis
        using sz notcalc by (subst evaluateGate.simps) (auto simp: ix)
    next
      case False
      let ?vis = "(visited s)[nat g := True]"
      let ?s0 = "s\<lparr>visited := ?vis\<rparr>"
      have st: "go_store (visited s) g True = Some ?vis"
        using rng sz by (simp add: go_store_def scratch_sized_def)
      have sz0: "scratch_sized circ ?s0"
        using sz by (simp add: scratch_sized_def)
      have less0: "unvisited ?s0 < unvisited s"
        using unvisited_store_less[OF _ st] ix(1) False by simp
      show ?thesis
      proof (cases "GateType gate = GateINPUT")
        case True
        with wired have "GateType gate = GateINPUT \<longrightarrow> g < int (length inputs)" by simp
        from finishGate_returns[OF sz0 rng this]
        show ?thesis
          using True False notcalc
          by (subst evaluateGate.simps) (auto simp: ix st gate)
      next
        case ni: False
        with wired obtain p0 where p0: "go_index (InFrom gate) 0 = Some p0"
          by (cases "InFrom gate") (auto simp: go_index_def)
        with gate ni have "(g, p0) \<in> trav circ"
          by (auto simp: trav_def)
        from less.hyps[OF less0 sz0 cone_wired_step[OF less.prems(2) this]]
        obtain a1 b1 s1 where
          e1: "evaluateGate circ p0 ?s0 inputs = Some (a1, b1, s1)" and sz1: "scratch_sized circ s1"
          by blast
        have fin: "\<exists>a b s'. finishGate gate g inputs a1 b1 a2 b2 s2 = Some (a, b, s') \<and>
                    scratch_sized circ s'" if "scratch_sized circ s2" for a2 b2 s2
          using finishGate_returns[OF that rng] ni by simp
        show ?thesis
        proof (cases "length (InFrom gate) = 2")
          case False
          with fin[OF sz1] show ?thesis
            using ni \<open>\<not> visited s ! nat g\<close> notcalc
            by (subst evaluateGate.simps) (auto simp: ix st gate p0 e1)
        next
          case True
          then obtain p1 where p1: "go_index (InFrom gate) 1 = Some p1"
            by (simp add: go_index_def)
          with gate ni True have "(g, p1) \<in> trav circ"
            by (auto simp: trav_def)
          moreover have "unvisited s1 < unvisited s"
            using evaluateGate_unvisited[OF e1] less0 by simp
          ultimately obtain a2 b2 s2 where
            e2: "evaluateGate circ p1 s1 inputs = Some (a2, b2, s2)" and sz2: "scratch_sized circ s2"
            using less.hyps[OF _ sz1 cone_wired_step[OF less.prems(2)]] by blast
          from fin[OF sz2] show ?thesis
            using ni True \<open>\<not> visited s ! nat g\<close> notcalc
            by (subst evaluateGate.simps) (auto simp: ix st gate p0 e1 p1 e2)
        qed
      qed
    qed
  qed
qed

lemma evalOutputs_returns:
  assumes "scratch_sized circ s" and "0 \<le> i" and "int (length result) = NumOutputWires circ"
    and "circuit_wired circ inputBits"
  shows "\<exists>r. evalOutputs circ inputBits i s result = Some r"
  using assms
proof (induction circ inputBits i s result rule: evalOutputs.induct)
  case (1 circ inputBits i s result)
  show ?case
  proof (cases "i < NumOutputWires circ")
    case False
    then show ?thesis by (subst evalOutputs.simps) auto
  next
    case True
    let ?s0 = "s\<lparr>visited := map (\<lambda>_. False) (visited s)\<rparr>"
    have sz0: "scratch_sized circ ?s0"
      using "1.prems"(1) by (simp add: scratch_sized_def)
    have "cone_wired circ inputBits (getOutputGate circ i)"
      using "1.prems"(2,4) True by (simp add: circuit_wired_def)
    from evaluateGate_returns[OF sz0 this] obtain a b s' where
      ev: "evaluateGate circ (getOutputGate circ i) ?s0 inputBits = Some (a, b, s')"
      and sz': "scratch_sized circ s'"
      by blast
    have st: "go_store result i b = Some (result[nat i := b])"
      using True "1.prems"(2,3) by (simp add: go_store_def)
    show ?thesis
    proof (cases a)
      case False
      then show ?thesis
        using True by (subst evalOutputs.simps) (auto simp: ev st)
    next
      case a: True
      from "1.IH"[OF True ev refl refl st _ sz'] a "1.prems"(2,3,4)
      obtain r where "evalOutputs circ inputBits (i + 1) s' (result[nat i := b]) = Some r"
        by auto
      then show ?thesis
        using True a by (subst evalOutputs.simps) (simp add: ev st)
    qed
  qed
qed

lemma EvaluateCircuit_returns:
  assumes "circuit_wired circ inputBits"
  shows "\<exists>r. EvaluateCircuit circ inputBits = Some r"
proof (cases "int (length inputBits) \<noteq> NumInputWires circ \<or> NumOutputWires circ < 1")
  case True
  then show ?thesis by (auto simp: EvaluateCircuit_def)
next
  case False
  let ?n = "length (Gates circ)"
  let ?s = "\<lparr>visited = replicate ?n False, calculated = replicate ?n False,
            values_s = replicate ?n False\<rparr>"
  have "scratch_sized circ ?s" by (simp add: scratch_sized_def)
  from evalOutputs_returns[OF this _ _ assms, of 0 "replicate (nat (NumOutputWires circ)) False"]
    False
  show ?thesis by (simp add: EvaluateCircuit_def Let_def)
qed

lemma cone_wiredI:
  assumes "g \<in> R" and "\<forall>h \<in> R. gate_wired circ inputs h"
    and "\<forall>(h, p) \<in> trav circ. h \<in> R \<longrightarrow> p \<in> R"
  shows "cone_wired circ inputs g"
proof -
  have "h \<in> R" if "(g, h) \<in> (trav circ)\<^sup>*" for h
    using that assms(1,3) by (induction rule: rtrancl_induct) auto
  with assms(2) show ?thesis by (auto simp: cone_wired_def)
qed

lemma EvaluateCircuit_cycle_fails:
  assumes "0 \<le> out" and "out < NumOutputWires circ"
    and "(getOutputGate circ out, h) \<in> (deps circ)\<^sup>*" and "(h, h) \<in> (deps circ)\<^sup>+"
  shows "EvaluateCircuit circ inputBits = None \<or>
         EvaluateCircuit circ inputBits = Some (False, None)"
proof (cases "EvaluateCircuit circ inputBits")
  case None
  then show ?thesis by simp
next
  case (Some r)
  let ?n = "length (Gates circ)"
  let ?s = "\<lparr>visited = replicate ?n False, calculated = replicate ?n False,
            values_s = replicate ?n False\<rparr>"
  let ?res = "replicate (nat (NumOutputWires circ)) False"
  have inv: "memo_closed circ ?s" "memo_acyclic circ ?s"
    by (auto simp: memo_closed_def memo_acyclic_def isCalc_def go_index_def)
  show ?thesis
  proof (cases "int (length inputBits) \<noteq> NumInputWires circ \<or> NumOutputWires circ < 1")
    case True
    then show ?thesis by (auto simp: EvaluateCircuit_def)
  next
    case False
    with Some have run: "evalOutputs circ inputBits 0 ?s ?res = Some r"
      by (simp add: EvaluateCircuit_def Let_def)
    from evalOutputs_cycle[OF inv assms(1,2,3,4)] run have "\<forall>bits. r \<noteq> (True, bits)"
      by auto
    with evalOutputs_shape[OF run] have "r = (False, None)" by auto
    with Some show ?thesis by simp
  qed
qed

text \<open>
  C2, as amended. Let some output wire reach, along the reference graph, a gate that lies
  on a cycle of that graph. Then for every input vector \<open>EvaluateCircuit\<close> (a total
  function: it terminates) never returns success and never a result vector: either the
  traversal panics on an index out of range, or the call returns \<open>(false, nil)\<close>; and in a
  wired circuit it returns \<open>(false, nil)\<close>. The output wire may be any one, also one that
  comes after wires whose evaluation has filled the memoisation.
\<close>

theorem EvaluateCircuit_reachable_cycle:
  assumes "0 \<le> out" and "out < NumOutputWires circ"
    and "(getOutputGate circ out, h) \<in> (deps circ)\<^sup>*" and "(h, h) \<in> (deps circ)\<^sup>+"
  shows "(EvaluateCircuit circ inputBits = None \<or>
          EvaluateCircuit circ inputBits = Some (False, None)) \<and>
         (circuit_wired circ inputBits \<longrightarrow>
          EvaluateCircuit circ inputBits = Some (False, None))"
  using EvaluateCircuit_cycle_fails[OF assms, of inputBits]
    EvaluateCircuit_returns[of circ inputBits]
  by auto

lemma depsI:
  "go_index (Gates circ) g = Some gate \<Longrightarrow> GateType gate \<noteq> GateINPUT \<Longrightarrow>
   GateType gate \<noteq> GateCONST \<Longrightarrow> p \<in> set (InFrom gate) \<Longrightarrow> (g, p) \<in> deps circ"
  by (auto simp: deps_def)

lemma cycleCircuit_wired: "circuit_wired cycleCircuit [True]"
proof -
  let ?R = "{0, 1, 2, 3, 4, 5 :: int}"
  have ix: "go_index (Gates cycleCircuit) h = Some gate \<longleftrightarrow>
      (h = 0 \<and> gate = \<lparr>GateType = GateINPUT, ConstVal = False, InFrom = []\<rparr>) \<or>
      (h = 1 \<and> gate = \<lparr>GateType = GateOUTPUT, ConstVal = False, InFrom = [3]\<rparr>) \<or>
      (h = 2 \<and> gate = \<lparr>GateType = GateOUTPUT, ConstVal = False, InFrom = [4]\<rparr>) \<or>
      (h = 3 \<and> gate = \<lparr>GateType = GateCOPY, ConstVal = False, InFrom = [0]\<rparr>) \<or>
      (h = 4 \<and> gate = \<lparr>GateType = GateAND, ConstVal = False, InFrom = [3, 5]\<rparr>) \<or>
      (h = 5 \<and> gate = \<lparr>GateType = GateNOT, ConstVal = False, InFrom = [4]\<rparr>)" for h gate
  proof -
    have "0 \<le> h \<and> h < 6 \<longleftrightarrow> h \<in> ?R" by auto
    then show ?thesis
      by (auto simp: go_index_def cycleCircuit_def)
  qed
  have w: "\<forall>h \<in> ?R. gate_wired cycleCircuit [True] h"
    by (simp add: gate_wired_def ix GateType_defs)
  have c': "p \<in> ?R" if "(h, p) \<in> trav cycleCircuit" for h p
  proof -
    from that obtain gate where g: "go_index (Gates cycleCircuit) h = Some gate"
      and p: "go_index (InFrom gate) 0 = Some p \<or> go_index (InFrom gate) 1 = Some p"
      by (auto simp: trav_def)
    from g[unfolded ix] p show "p \<in> ?R"
      by (elim disjE conjE) (simp_all add: go_index_def split: if_splits)
  qed
  have c: "\<forall>(h, p) \<in> trav cycleCircuit. h \<in> ?R \<longrightarrow> p \<in> ?R"
    using c' by blast
  have "cone_wired cycleCircuit [True] g" if "g \<in> ?R" for g
    using that w c by (rule cone_wiredI)
  moreover have "getOutputGate cycleCircuit out \<in> ?R"
    if "0 \<le> out" "out < NumOutputWires cycleCircuit" for out
  proof -
    from that have "out = 0 \<or> out = 1" by (auto simp: cycleCircuit_def)
    then show ?thesis by (auto simp: getOutputGate_def cycleCircuit_def)
  qed
  ultimately show ?thesis
    unfolding circuit_wired_def by blast
qed

theorem EvaluateCircuit_reachable_cycle_witness:
  "(getOutputGate cycleCircuit 1, 4) \<in> (deps cycleCircuit)\<^sup>* \<and>
   (4, 4) \<in> (deps cycleCircuit)\<^sup>+ \<and>
   validCircuit cycleCircuit = Some True \<and>
   circuit_wired cycleCircuit [True] \<and>
   EvaluateCircuit cycleCircuit [True] = Some (False, None)"
proof -
  have e24: "(2, 4) \<in> deps cycleCircuit"
    by (rule depsI[where gate = "\<lparr>GateType = GateOUTPUT, ConstVal = False, InFrom = [4]\<rparr>"])
      (simp_all add: cycleCircuit_def go_index_def GateType_defs)
  have e45: "(4, 5) \<in> deps cycleCircuit"
    by (rule depsI[where gate = "\<lparr>GateType = GateAND, ConstVal = False, InFrom = [3, 5]\<rparr>"])
      (simp_all add: cycleCircuit_def go_index_def GateType_defs)
  have e54: "(5, 4) \<in> deps cycleCircuit"
    by (rule depsI[where gate = "\<lparr>GateType = GateNOT, ConstVal = False, InFrom = [4]\<rparr>"])
      (simp_all add: cycleCircuit_def go_index_def GateType_defs)
  have o: "getOutputGate cycleCircuit 1 = 2"
    by (simp add: getOutputGate_def cycleCircuit_def)
  have r: "(getOutputGate cycleCircuit 1, 4) \<in> (deps cycleCircuit)\<^sup>*"
    using e24 o by simp
  have c: "(4, 4) \<in> (deps cycleCircuit)\<^sup>+"
    using e45 e54 by (rule trancl_into_trancl[OF r_into_trancl])
  have n: "(0::int) \<le> 1" "1 < NumOutputWires cycleCircuit"
    by (simp_all add: cycleCircuit_def)
  have v: "validCircuit cycleCircuit = Some True"
    by code_simp
  from EvaluateCircuit_reachable_cycle[OF n r c, of "[True]"] cycleCircuit_wired
  have "EvaluateCircuit cycleCircuit [True] = Some (False, None)"
    by simp
  with r c v cycleCircuit_wired show ?thesis by simp
qed

text \<open>
  C2, as stated, fails: \<open>islandCircuit\<close> has the reference cycle \<open>2 \<rightarrow> 3 \<rightarrow> 2\<close> among
  \<open>Not\<close> gates and passes \<open>validCircuit\<close>, and its evaluation succeeds, since no output
  wire depends on the cycle.
\<close>

theorem unreachable_cycle_succeeds:
  "(2, 2) \<in> (deps islandCircuit)\<^sup>+ \<and>
   validCircuit islandCircuit = Some True \<and>
   EvaluateCircuit islandCircuit [True] = Some (True, Some [True])"
proof -
  have e23: "(2, 3) \<in> deps islandCircuit"
    by (rule depsI[where gate = "\<lparr>GateType = GateNOT, ConstVal = False, InFrom = [3]\<rparr>"])
      (simp_all add: islandCircuit_def go_index_def GateType_defs)
  have e32: "(3, 2) \<in> deps islandCircuit"
    by (rule depsI[where gate = "\<lparr>GateType = GateNOT, ConstVal = False, InFrom = [2]\<rparr>"])
      (simp_all add: islandCircuit_def go_index_def GateType_defs)
  have c: "(2, 2) \<in> (deps islandCircuit)\<^sup>+"
    using e23 e32 by (rule trancl_into_trancl[OF r_into_trancl])
  have v: "validCircuit islandCircuit = Some True"
    by code_simp
  have e: "EvaluateCircuit islandCircuit [True] = Some (True, Some [True])"
    by code_simp
  from c v e show ?thesis by simp
qed

subsection \<open>The identity circuit\<close>

lemma evaluateGate_cached:
  assumes "go_index (visited s) g = Some v" and "go_index (calculated s) g = Some True"
    and "go_index (values_s s) g = Some x"
  shows "evaluateGate circ g s inputs = Some (True, x, s)"
  using assms by (subst evaluateGate.simps) simp

lemma evaluateGate_input:
  assumes "go_index (visited s) g = Some False" and "go_index (calculated s) g = Some False"
    and "go_index (Gates circ) g = Some gate" and "GateType gate = GateINPUT"
  shows "evaluateGate circ g s inputs =
         finishGate gate g inputs False False False False (s\<lparr>visited := (visited s)[nat g := True]\<rparr>)"
proof -
  from assms(1) have "go_store (visited s) g True = Some ((visited s)[nat g := True])"
    by (auto simp: go_index_def go_store_def split: if_splits)
  with assms show ?thesis
    by (subst evaluateGate.simps) simp
qed

lemma evaluateGate_unary:
  assumes "go_index (visited s) g = Some False" and "go_index (calculated s) g = Some False"
    and "go_index (Gates circ) g = Some gate" and "GateType gate \<noteq> GateINPUT"
    and "InFrom gate = [p0]"
    and "evaluateGate circ p0 (s\<lparr>visited := (visited s)[nat g := True]\<rparr>) inputs = Some (a1, b1, s1)"
  shows "evaluateGate circ g s inputs = finishGate gate g inputs a1 b1 False False s1"
proof -
  from assms(1) have "go_store (visited s) g True = Some ((visited s)[nat g := True])"
    by (auto simp: go_index_def go_store_def split: if_splits)
  with assms show ?thesis
    by (subst evaluateGate.simps) (simp add: go_index_def)
qed

lemma finishGate_memo:
  assumes "gateSwitch gate (int g) bits a1 b1 a2 b2 = Some (True, bits ! (g mod n))"
    and "memo_ok n bits s" and "g < 3 * n"
  shows "\<exists>s'. finishGate gate (int g) bits a1 b1 a2 b2 s = Some (True, bits ! (g mod n), s') \<and>
              memo_ok n bits s' \<and> visited s' = visited s"
  using assms
  by (auto simp: finishGate_def go_store_def memo_ok_def nth_list_update)

lemma memo_ok_visited:
  "memo_ok n bits s \<Longrightarrow> length vis = 3 * n \<Longrightarrow> memo_ok n bits (s\<lparr>visited := vis\<rparr>)"
  by (simp add: memo_ok_def)

lemma go_index_nat:
  "go_index xs (int k) = (if k < length xs then Some (xs ! k) else None)"
  by (simp add: go_index_def)

lemma go_store_nat:
  "go_store xs (int k) v = (if k < length xs then Some (xs[k := v]) else None)"
  by (simp add: go_store_def)

lemma identity_gates:
  assumes "i < n"
  shows "go_index (Gates (identityCircuit n)) (int i) =
           Some \<lparr>GateType = GateINPUT, ConstVal = False, InFrom = []\<rparr>"
    and "go_index (Gates (identityCircuit n)) (int (n + i)) =
           Some \<lparr>GateType = GateOUTPUT, ConstVal = False, InFrom = [int (2 * n + i)]\<rparr>"
    and "go_index (Gates (identityCircuit n)) (int (2 * n + i)) =
           Some \<lparr>GateType = GateCOPY, ConstVal = False, InFrom = [int i]\<rparr>"
  using assms
  by (simp_all add: identityCircuit_def go_index_nat nth_append del: of_nat_add of_nat_mult)

lemma identity_input_gate:
  assumes ok: "memo_ok n bits s" and i: "i < n" and len: "length bits = n"
    and fresh: "visited s ! i \<longrightarrow> calculated s ! i"
  shows "\<exists>s'. evaluateGate (identityCircuit n) (int i) s bits = Some (True, bits ! i, s') \<and>
              memo_ok n bits s'"
proof (cases "calculated s ! i")
  case True
  with ok i have "evaluateGate (identityCircuit n) (int i) s bits = Some (True, bits ! i, s)"
    by (intro evaluateGate_cached[where v = "visited s ! i"])
      (auto simp: memo_ok_def go_index_def)
  with ok show ?thesis by auto
next
  case False
  let ?s0 = "s\<lparr>visited := (visited s)[i := True]\<rparr>"
  let ?g = "\<lparr>GateType = GateINPUT, ConstVal = False, InFrom = []\<rparr>"
  have ev: "evaluateGate (identityCircuit n) (int i) s bits =
        finishGate ?g (int i) bits False False False False ?s0"
    using evaluateGate_input[OF _ _ identity_gates(1)[OF i], of s bits] False fresh ok i
    by (simp add: memo_ok_def go_index_def)
  have sw: "gateSwitch ?g (int i) bits False False False False = Some (True, bits ! (i mod n))"
    using i len by (simp add: gateSwitch_def go_index_def)
  have ok0: "memo_ok n bits ?s0"
    using ok by (intro memo_ok_visited) (simp_all add: memo_ok_def)
  from finishGate_memo[OF sw ok0] i obtain s' where
    "finishGate ?g (int i) bits False False False False ?s0 = Some (True, bits ! (i mod n), s')"
    "memo_ok n bits s'" "visited s' = visited ?s0"
    by auto
  with ev i show ?thesis by auto
qed


lemma identity_unary_gate:
  assumes ok: "memo_ok n bits s" and g: "g < 3 * n"
    and gate: "go_index (Gates (identityCircuit n)) (int g) = Some gate"
    and kind: "GateType gate = GateOUTPUT \<or> GateType gate = GateCOPY"
    and pred: "InFrom gate = [int p]" and pg: "p mod n = g mod n"
    and fresh: "visited s ! g \<longrightarrow> calculated s ! g"
    and sub: "\<And>s0. memo_ok n bits s0 \<Longrightarrow> s0 = s\<lparr>visited := (visited s)[g := True]\<rparr> \<Longrightarrow>
        \<exists>s1. evaluateGate (identityCircuit n) (int p) s0 bits = Some (True, bits ! (p mod n), s1) \<and>
             memo_ok n bits s1"
  shows "\<exists>s'. evaluateGate (identityCircuit n) (int g) s bits = Some (True, bits ! (g mod n), s') \<and>
              memo_ok n bits s'"
proof (cases "calculated s ! g")
  case True
  with ok g have "evaluateGate (identityCircuit n) (int g) s bits = Some (True, bits ! (g mod n), s)"
    by (intro evaluateGate_cached[where v = "visited s ! g"])
      (auto simp: memo_ok_def go_index_nat)
  with ok show ?thesis by auto
next
  case False
  let ?s0 = "s\<lparr>visited := (visited s)[g := True]\<rparr>"
  have ok0: "memo_ok n bits ?s0"
    using ok by (intro memo_ok_visited) (simp_all add: memo_ok_def)
  from sub[OF ok0 refl] obtain s1 where
    s1: "evaluateGate (identityCircuit n) (int p) ?s0 bits = Some (True, bits ! (p mod n), s1)"
    and ok1: "memo_ok n bits s1"
    by auto
  have ni: "GateType gate \<noteq> GateINPUT"
    using kind by (auto simp: GateType_defs)
  have ev: "evaluateGate (identityCircuit n) (int g) s bits =
        finishGate gate (int g) bits True (bits ! (p mod n)) False False s1"
    using evaluateGate_unary[OF _ _ gate ni pred, of s bits True "bits ! (p mod n)" s1]
      s1 False fresh ok g
    by (simp add: memo_ok_def go_index_nat)
  have sw: "gateSwitch gate (int g) bits True (bits ! (p mod n)) False False =
        Some (True, bits ! (g mod n))"
    using kind pred pg by (auto simp: gateSwitch_def GateType_defs)
  from finishGate_memo[OF sw ok1 g] ev show ?thesis by auto
qed

lemma identity_copy_gate:
  assumes ok: "memo_ok n bits s" and i: "i < n" and len: "length bits = n"
    and fresh: "visited s ! i \<longrightarrow> calculated s ! i"
      "visited s ! (2 * n + i) \<longrightarrow> calculated s ! (2 * n + i)"
  shows "\<exists>s'. evaluateGate (identityCircuit n) (int (2 * n + i)) s bits =
                Some (True, bits ! i, s') \<and> memo_ok n bits s'"
proof -
  have "\<exists>s'. evaluateGate (identityCircuit n) (int (2 * n + i)) s bits =
                Some (True, bits ! ((2 * n + i) mod n), s') \<and> memo_ok n bits s'"
  proof (rule identity_unary_gate[OF ok _ identity_gates(3)[OF i], where p = i])
    fix s0 assume "memo_ok n bits s0" "s0 = s\<lparr>visited := (visited s)[2 * n + i := True]\<rparr>"
    with identity_input_gate[of n bits s0 i] i len fresh(1)
    show "\<exists>s1. evaluateGate (identityCircuit n) (int i) s0 bits = Some (True, bits ! (i mod n), s1) \<and>
               memo_ok n bits s1"
      by simp
  qed (use i fresh in simp_all)
  with i show ?thesis by simp
qed

lemma identity_output_gate:
  assumes ok: "memo_ok n bits s" and i: "i < n" and len: "length bits = n"
    and fresh: "visited s ! i \<longrightarrow> calculated s ! i"
      "visited s ! (2 * n + i) \<longrightarrow> calculated s ! (2 * n + i)"
      "visited s ! (n + i) \<longrightarrow> calculated s ! (n + i)"
  shows "\<exists>s'. evaluateGate (identityCircuit n) (int (n + i)) s bits =
                Some (True, bits ! i, s') \<and> memo_ok n bits s'"
proof -
  have "\<exists>s'. evaluateGate (identityCircuit n) (int (n + i)) s bits =
                Some (True, bits ! ((n + i) mod n), s') \<and> memo_ok n bits s'"
  proof (rule identity_unary_gate[OF ok _ identity_gates(2)[OF i], where p = "2 * n + i"])
    fix s0 assume "memo_ok n bits s0" "s0 = s\<lparr>visited := (visited s)[n + i := True]\<rparr>"
    with identity_copy_gate[of n bits s0 i] i len fresh(1,2)
    show "\<exists>s1. evaluateGate (identityCircuit n) (int (2 * n + i)) s0 bits =
                 Some (True, bits ! ((2 * n + i) mod n), s1) \<and> memo_ok n bits s1"
      by simp
  qed (use i fresh in simp_all)
  with i show ?thesis by simp
qed


lemma result_update:
  assumes "i < n" and "length bits = n"
  shows "(take i bits @ replicate (n - i) False)[i := bits ! i] =
         take (Suc i) bits @ replicate (n - Suc i) False"
proof -
  have "replicate (n - i) False = False # replicate (n - Suc i) False"
    using assms(1) by (simp add: Suc_diff_Suc flip: replicate_Suc)
  then show ?thesis
    using assms by (simp add: list_update_append take_Suc_conv_app_nth)
qed

lemma evalOutputs_identity:
  assumes "memo_ok n bits s" and "length bits = n" and "i \<le> n"
    and "result = take i bits @ replicate (n - i) False"
  shows "evalOutputs (identityCircuit n) bits (int i) s result = Some (True, Some bits)"
  using assms
proof (induction "n - i" arbitrary: i s result)
  case 0
  then have "i = n" by simp
  with 0 show ?case
    by (subst evalOutputs.simps) (simp add: identityCircuit_def)
next
  case (Suc d)
  then have i: "i < n" by simp
  let ?c = "identityCircuit n"
  let ?s0 = "s\<lparr>visited := map (\<lambda>_. False) (visited s)\<rparr>"
  have ok0: "memo_ok n bits ?s0"
    using Suc.prems(1) by (intro memo_ok_visited) (simp_all add: memo_ok_def)
  have vis: "\<not> visited ?s0 ! k" if "k < 3 * n" for k
    using that Suc.prems(1) by (simp add: memo_ok_def)
  have og: "getOutputGate ?c (int i) = int (n + i)"
    by (simp add: getOutputGate_def identityCircuit_def)
  from identity_output_gate[OF ok0 i Suc.prems(2)] vis i
  obtain s' where ev: "evaluateGate ?c (int (n + i)) ?s0 bits = Some (True, bits ! i, s')"
    and ok': "memo_ok n bits s'"
    by auto
  let ?r = "take (Suc i) bits @ replicate (n - Suc i) False"
  have st: "go_store result (int i) (bits ! i) = Some ?r"
    using i Suc.prems(2,4) by (simp add: go_store_nat result_update)
  have IH: "evalOutputs ?c bits (int (Suc i)) s' ?r = Some (True, Some bits)"
    using Suc.hyps(2) i by (intro Suc.hyps(1)[OF _ ok' Suc.prems(2)]) simp_all
  have lt: "int i < NumOutputWires ?c"
    using i by (simp add: identityCircuit_def)
  have "evalOutputs ?c bits (int i) s result = evalOutputs ?c bits (int i + 1) s' ?r"
    by (subst evalOutputs.simps) (simp only: lt if_True og ev st Option.bind.bind_lunit
        prod.case simp_thms if_False)
  with IH show ?case by (simp add: add.commute)
qed

lemma EvaluateCircuit_identity:
  assumes "0 < n" and "length bits = n"
  shows "EvaluateCircuit (identityCircuit n) bits = Some (True, Some bits)"
proof -
  let ?c = "identityCircuit n"
  have len: "length (Gates ?c) = 3 * n"
    by (simp add: identityCircuit_def)
  let ?s = "\<lparr>visited = replicate (3 * n) False, calculated = replicate (3 * n) False,
            values_s = replicate (3 * n) False\<rparr>"
  have "memo_ok n bits ?s"
    by (simp add: memo_ok_def)
  from evalOutputs_identity[OF this assms(2), of 0 "replicate n False"]
  have "evalOutputs ?c bits 0 ?s (replicate n False) = Some (True, Some bits)"
    by simp
  moreover have "NumInputWires ?c = int n" "NumOutputWires ?c = int n"
    by (simp_all add: identityCircuit_def)
  ultimately show ?thesis
    using assms by (simp add: EvaluateCircuit_def len Let_def)
qed

lemma DecodeOutputVariables_identity:
  assumes "length bits = n" and "boolArrayToBytes bits = Some r"
  shows "DecodeOutputVariables (identityCircuit n) bits = Some (Some [r])"
proof -
  let ?c = "identityCircuit n"
  have f: "NumOutputWires ?c = int n" "NumOutputVars ?c = 1" "NumWiresOV ?c = [int n]"
    by (simp_all add: identityCircuit_def)
  have sl: "go_slice bits 0 (int n) = Some bits"
    using assms(1) by (simp add: go_slice_def)
  have d1: "decodeVars ?c bits 1 (int n) [r] = Some [r]"
    by (subst decodeVars.simps) (simp add: f)
  have "decodeVars ?c bits 0 0 [[]] = Some [r]"
    by (subst decodeVars.simps) (simp add: f go_index_def sl assms(2) go_store_def d1)
  then show ?thesis
    using assms(1) by (simp add: DecodeOutputVariables_def f go_make_def)
qed

section \<open>The bit codec\<close>

subsection \<open>Packing\<close>

lemma bit_test:
  "(uint (x :: byte) AND 2 ^ n \<noteq> 0) = bit x n" if "n < 8"
  using that bit_iff_and_push_bit_not_eq_0[of "uint x" n] by (simp add: bit_uint_iff)

lemma padBits_step:
  assumes "0 \<le> j"
  shows "(if j div 8 < int (length buf) then do {
            x \<leftarrow> go_index buf (int (length buf) - j div 8 - 1);
            Some ((uint x AND push_bit (nat (j mod 8)) 1) \<noteq> 0)
          } else Some False) = Some (wire_bit buf (nat j))"
proof -
  have d: "nat (j div 8) = nat j div 8" and m: "nat (j mod 8) = nat j mod 8"
    using assms by (simp_all add: nat_div_distrib nat_mod_distrib)
  show ?thesis
  proof (cases "j div 8 < int (length buf)")
    case True
    then have lt: "nat j div 8 < length buf"
      using assms d by linarith
    have ge: "0 \<le> j div 8" using assms by simp
    have idx: "nat (int (length buf) - j div 8 - 1) = length buf - 1 - nat j div 8"
      using True ge d by linarith
    have "go_index buf (int (length buf) - j div 8 - 1) = Some (buf ! (length buf - 1 - nat j div 8))"
      using True ge by (simp add: go_index_def idx)
    then show ?thesis
      using True lt by (simp add: wire_bit_def m bit_test)
  next
    case False
    then have "\<not> nat j div 8 < length buf"
      using assms d by linarith
    with False show ?thesis by (simp add: wire_bit_def)
  qed
qed

lemma padBits_eq:
  assumes "0 \<le> j" and "j \<le> w" and "0 \<le> loc" and "loc + (w - j) \<le> int (length result)"
  shows "padBits buf w j loc result =
         Some (loc + (w - j),
               take (nat loc) result @ map (wire_bit buf) [nat j..<nat w] @
               drop (nat (loc + (w - j))) result)"
  using assms
proof (induction buf w j loc result rule: padBits.induct)
  case (1 buf w j loc result)
  show ?case
  proof (cases "j < w")
    case False
    with "1.prems" have "j = w" by simp
    then show ?thesis
      by (subst padBits.simps) simp
  next
    case True
    let ?b = "wire_bit buf (nat j)"
    let ?r = "result[nat loc := ?b]"
    have st: "go_store result loc ?b = Some ?r"
      using "1.prems" True by (simp add: go_store_def)
    have e: "loc + 1 + (w - (j + 1)) = loc + (w - j)" by simp
    have IH: "padBits buf w (j + 1) (loc + 1) ?r =
         Some (loc + (w - j),
               take (nat (loc + 1)) ?r @ map (wire_bit buf) [nat (j + 1)..<nat w] @
               drop (nat (loc + (w - j))) ?r)"
      using "1.IH"[OF True padBits_step[OF "1.prems"(1)] st] "1.prems" True
      unfolding e by simp
    have loc_lt: "nat loc < length result"
      using "1.prems" True by linarith
    have t: "take (nat (loc + 1)) ?r = take (nat loc) result @ [?b]"
      using "1.prems"(3) loc_lt by (simp add: nat_add_distrib take_Suc_conv_app_nth)
    have "nat loc < nat (loc + (w - j))"
      using "1.prems" True by linarith
    then have d: "drop (nat (loc + (w - j))) ?r = drop (nat (loc + (w - j))) result"
      by (simp add: drop_update_cancel)
    have u: "[nat j..<nat w] = nat j # [nat (j + 1)..<nat w]"
      using "1.prems"(1) True by (simp add: upt_conv_Cons nat_add_distrib)
    show ?thesis
      using True "1.prems"(1)
      by (subst padBits.simps) (simp add: padBits_step st IH t d u)
  qed
qed


lemma splice_take:
  "L + length P \<le> length R \<Longrightarrow>
   take (L + length P) (take L R @ P @ drop (L + length P) R) = take L R @ P"
  by simp

lemma splice_drop:
  "L + length P \<le> length R \<Longrightarrow> L + length P \<le> T \<Longrightarrow>
   drop T (take L R @ P @ drop (L + length P) R) = drop T R"
  by (simp add: min_def)

lemma sum_list_take_mono:
  assumes "\<forall>w \<in> set ws. (0::int) \<le> w" and "m \<le> k"
  shows "sum_list (take m ws) \<le> sum_list (take k ws)"
proof -
  have "take k ws = take m ws @ take (k - m) (drop m ws)"
    using assms(2) by (metis le_add_diff_inverse take_add)
  moreover have "0 \<le> sum_list (take (k - m) (drop m ws))"
    using assms(1) by (intro sum_list_nonneg) (auto dest!: in_set_takeD in_set_dropD)
  ultimately show ?thesis by simp
qed

lemma sum_list_take_nonneg:
  "\<forall>w \<in> set ws. (0::int) \<le> w \<Longrightarrow> 0 \<le> sum_list (take m ws)"
  by (intro sum_list_nonneg) (auto dest!: in_set_takeD)

lemma length_pack_var: "length (pack_var buf w) = nat w"
  by (simp add: pack_var_def)

lemma padVars_eq:
  assumes "0 \<le> i" and "i \<le> int (length bufs)"
    and "length bufs \<le> length (NumWiresIV circ)"
    and "\<forall>w \<in> set (NumWiresIV circ). 0 \<le> w"
    and "loc = sum_list (take (nat i) (NumWiresIV circ))"
    and "sum_list (take (length bufs) (NumWiresIV circ)) \<le> int (length result)"
  shows "padVars circ bufs i loc result =
         Some (if \<exists>k. nat i \<le> k \<and> k < length bufs \<and>
                      NumWiresIV circ ! k < int (length (bufs ! k)) * 8
               then None
               else Some (take (nat loc) result @
                          concat (map2 pack_var (drop (nat i) bufs) (drop (nat i) (NumWiresIV circ))) @
                          drop (nat (sum_list (take (length bufs) (NumWiresIV circ)))) result))"
  using assms
proof (induction circ bufs i loc result rule: padVars.induct)
  case (1 circ bufs i loc result)
  let ?ws = "NumWiresIV circ"
  let ?T = "sum_list (take (length bufs) ?ws)"
  show ?case
  proof (cases "i < int (length bufs)")
    case False
    with "1.prems" have "nat i = length bufs" by simp
    moreover have "nat loc \<le> length result"
      using "1.prems" \<open>nat i = length bufs\<close> by simp
    ultimately show ?thesis
      using False "1.prems"(3,5) by (subst padVars.simps) simp
  next
    case True
    let ?n = "nat i"
    let ?buf = "bufs ! ?n"
    let ?w = "?ws ! ?n"
    have n: "?n < length bufs" "?n < length ?ws"
      using True "1.prems"(1,3) by linarith+
    have ib: "go_index bufs i = Some ?buf" and iw: "go_index ?ws i = Some ?w"
      using n "1.prems"(1) by (simp_all add: go_index_def)
    show ?thesis
    proof (cases "?w < int (length ?buf) * 8")
      case big: True
      then have "\<exists>k. ?n \<le> k \<and> k < length bufs \<and> ?ws ! k < int (length (bufs ! k)) * 8"
        using n by blast
      then show ?thesis
        using True big by (subst padVars.simps) (simp add: ib iw)
    next
      case ok: False
      have w0: "0 \<le> ?w" using "1.prems"(4) n by simp
      have loc0: "0 \<le> loc"
        using "1.prems"(4,5) by (simp add: sum_list_take_nonneg)
      have next_sum: "loc + ?w = sum_list (take (nat (i + 1)) ?ws)"
        using "1.prems"(1,5) n by (simp add: nat_add_distrib take_Suc_conv_app_nth)
      have "sum_list (take (Suc ?n) ?ws) \<le> ?T"
        using n by (intro sum_list_take_mono "1.prems"(4)) simp
      then have le_T: "loc + ?w \<le> ?T"
        using next_sum "1.prems"(1) by (simp add: nat_add_distrib)
      with "1.prems"(6) have fits: "loc + ?w \<le> int (length result)" by simp
      let ?P = "pack_var ?buf ?w"
      let ?r = "take (nat loc) result @ ?P @ drop (nat (loc + ?w)) result"
      have pb: "padBits ?buf ?w 0 loc result = Some (loc + ?w, ?r)"
        using padBits_eq[of 0 ?w loc result ?buf] w0 loc0 fits
        by (simp add: pack_var_def)
      have nn: "nat (loc + ?w) = nat loc + length ?P"
        using w0 loc0 by (simp add: length_pack_var nat_add_distrib)
      have fitn: "nat loc + length ?P \<le> length result"
        using fits nn by linarith
      have len_r: "length ?r = length result"
        using fitn by (simp add: nn)
      have IH: "padVars circ bufs (i + 1) (loc + ?w) ?r =
         Some (if \<exists>k. nat (i + 1) \<le> k \<and> k < length bufs \<and> ?ws ! k < int (length (bufs ! k)) * 8
               then None
               else Some (take (nat (loc + ?w)) ?r @
                          concat (map2 pack_var (drop (nat (i + 1)) bufs) (drop (nat (i + 1)) ?ws)) @
                          drop (nat ?T) ?r))"
        using "1.prems"(1,3,4,6) True next_sum len_r
        by (intro "1.IH"[OF True ib iw ok pb refl]) simp_all
      have tk: "take (nat (loc + ?w)) ?r = take (nat loc) result @ ?P"
        unfolding nn using fitn by (rule splice_take)
      have "nat loc + length ?P \<le> nat ?T"
        using le_T nn by linarith
      then have dr: "drop (nat ?T) ?r = drop (nat ?T) result"
        unfolding nn using fitn by (intro splice_drop)
      have cc: "concat (map2 pack_var (drop ?n bufs) (drop ?n ?ws)) =
                ?P @ concat (map2 pack_var (drop (nat (i + 1)) bufs) (drop (nat (i + 1)) ?ws))"
        using n "1.prems"(1)
        by (simp add: Cons_nth_drop_Suc[symmetric] nat_add_distrib)
      have ex: "(\<exists>k. ?n \<le> k \<and> k < length bufs \<and> ?ws ! k < int (length (bufs ! k)) * 8) \<longleftrightarrow>
                (\<exists>k. nat (i + 1) \<le> k \<and> k < length bufs \<and> ?ws ! k < int (length (bufs ! k)) * 8)"
      proof -
        have "nat (i + 1) = Suc ?n" using "1.prems"(1) by simp
        then show ?thesis using ok by (metis Suc_leD Suc_leI le_neq_implies_less)
      qed
      have step: "padVars circ bufs i loc result = padVars circ bufs (i + 1) (loc + ?w) ?r"
        using True ok by (subst padVars.simps) (simp add: ib iw pb)
      show ?thesis
        by (simp only: step IH tk dr cc ex append_assoc)
    qed
  qed
qed





text \<open>
  C10. \<open>initializeCircuit\<close> records two input variables of 8 wires each on a circuit of
  8 input wires without complaint, and \<open>validCircuit\<close> accepts the circuit. Packing two
  one-byte buffers then writes \<open>result[8]\<close> in a result of length 8: a panic, not the
  \<open>nil\<close> of a failure. (With the first buffer alone the call returns.)
\<close>

theorem pack_overfull_panics:
  "initializeCircuit emptyCircuit 8 0 2 0 [8, 8] [] = Some overfullCircuit \<and>
   validCircuit overfullCircuit = Some True \<and>
   sum_list (NumWiresIV overfullCircuit) > NumInputWires overfullCircuit \<and>
   PadInputsToBoolArray overfullCircuit [[5]] =
     Some (Some [True, False, True, False, False, False, False, False]) \<and>
   PadInputsToBoolArray overfullCircuit [[5], [3]] = None"
  by code_simp

subsection \<open>Unpacking\<close>

lemma add_bit_byte:
  fixes x :: byte
  assumes "\<not> bit x k" and "k < 8" and "b < 8"
  shows "bit (x + push_bit k 1) b \<longleftrightarrow> bit x b \<or> b = k"
proof -
  have "x + push_bit k 1 = x OR push_bit k 1"
    using assms(1) by (intro disjunctive_add) (auto simp: bit_simps)
  then show ?thesis
    using assms(2,3) by (auto simp: bit_simps)
qed

lemma setBits_step:
  assumes inv: "bytes_upto input i result" and lt: "i < length input"
  shows "\<exists>result'. (if input ! i = True then do {
             x \<leftarrow> go_index result (int (length result) - int i div 8 - 1);
             go_store result (int (length result) - int i div 8 - 1)
               (x + push_bit (nat (int i mod 8)) 1)
           } else Some result) = Some result' \<and> bytes_upto input (Suc i) result'"
proof -
  let ?L = "length result"
  from inv have L: "?L = (length input + 7) div 8"
    and bits: "\<And>p b. p < ?L \<Longrightarrow> b < 8 \<Longrightarrow>
        bit (result ! p) b \<longleftrightarrow> (8 * (?L - 1 - p) + b < i \<and> input ! (8 * (?L - 1 - p) + b))"
    by (auto simp: bytes_upto_def)
  let ?q = "i div 8" and ?k = "i mod 8"
  have q: "?q < ?L" using lt L by linarith
  let ?p = "?L - 1 - ?q"
  have p: "?p < ?L" "?L - 1 - ?p = ?q" using q by linarith+
  have pos: "8 * (?L - 1 - p') + b = i \<longleftrightarrow> p' = ?p \<and> b = ?k" if "p' < ?L" "b < 8" for p' b
  proof
    assume e: "8 * (?L - 1 - p') + b = i"
    then have "i div 8 = ?L - 1 - p'" "i mod 8 = b" using that(2) by auto
    with that(1) q show "p' = ?p \<and> b = ?k" by linarith
  next
    assume "p' = ?p \<and> b = ?k"
    then show "8 * (?L - 1 - p') + b = i" using p(2) by simp
  qed
  show ?thesis
  proof (cases "input ! i")
    case False
    have "bytes_upto input (Suc i) result"
      unfolding bytes_upto_def
    proof (intro conjI allI impI)
      show "?L = (length input + 7) div 8" by (rule L)
    next
      fix p' and b :: nat assume pb: "p' < ?L" "b < 8"
      show "bit (result ! p') b \<longleftrightarrow>
            (8 * (?L - 1 - p') + b < Suc i \<and> input ! (8 * (?L - 1 - p') + b))"
        using bits[OF pb] False by (auto simp: less_Suc_eq)
    qed
    with False show ?thesis by simp
  next
    case True
    let ?x = "result ! ?p"
    let ?r = "result[?p := ?x + push_bit ?k 1]"
    have d8: "int i div 8 = int (i div 8)" and m8: "int i mod 8 = int (i mod 8)"
      by (simp_all add: zdiv_int zmod_int)
    have idx: "int ?L - int i div 8 - 1 = int ?p"
      unfolding d8 using q by linarith
    have k: "nat (int i mod 8) = ?k"
      unfolding m8 by simp
    have clear: "\<not> bit ?x ?k"
      using bits[OF p(1), of ?k] p(2) by simp
    have "bytes_upto input (Suc i) ?r"
      unfolding bytes_upto_def
    proof (intro conjI allI impI)
      show "length ?r = (length input + 7) div 8" using L by simp
    next
      fix p' and b :: nat assume pb: "p' < length ?r" "b < 8"
      then have pb': "p' < ?L" by simp
      show "bit (?r ! p') b \<longleftrightarrow>
            (8 * (length ?r - 1 - p') + b < Suc i \<and> input ! (8 * (length ?r - 1 - p') + b))"
      proof (cases "p' = ?p")
        case same: True
        have "bit (?r ! p') b \<longleftrightarrow> bit ?x b \<or> b = ?k"
          using same p(1) add_bit_byte[OF clear _ pb(2)] by simp
        also have "\<dots> \<longleftrightarrow> (8 * ?q + b < i \<and> input ! (8 * ?q + b)) \<or> b = ?k"
          using bits[OF p(1) pb(2)] p(2) by simp
        also have "\<dots> \<longleftrightarrow> (8 * ?q + b < Suc i \<and> input ! (8 * ?q + b))"
          using pos[OF p(1) pb(2)] p(2) True by (auto simp: less_Suc_eq)
        finally show ?thesis using same p(2) by simp
      next
        case other: False
        then have "bit (?r ! p') b \<longleftrightarrow> bit (result ! p') b" by simp
        also have "\<dots> \<longleftrightarrow> (8 * (?L - 1 - p') + b < i \<and> input ! (8 * (?L - 1 - p') + b))"
          by (rule bits[OF pb' pb(2)])
        also have "\<dots> \<longleftrightarrow> (8 * (?L - 1 - p') + b < Suc i \<and> input ! (8 * (?L - 1 - p') + b))"
          using pos[OF pb' pb(2)] other by (auto simp: less_Suc_eq)
        finally show ?thesis by simp
      qed
    qed
    moreover have "go_index result (int ?L - int i div 8 - 1) = Some ?x"
      using p(1) by (simp add: idx go_index_def)
    moreover have "go_store result (int ?L - int i div 8 - 1) (?x + push_bit ?k 1) = Some ?r"
      using p(1) by (simp add: idx go_store_def)
    ultimately show ?thesis using True by (simp add: k)
  qed
qed


lemma setBits_inv:
  assumes "bytes_upto input (nat i) result" and "0 \<le> i" and "i \<le> int (length input)"
  shows "\<exists>r. setBits input i result = Some r \<and> bytes_upto input (length input) r"
  using assms
proof (induction input i result rule: setBits.induct)
  case (1 input i result)
  show ?case
  proof (cases "i < int (length input)")
    case False
    with "1.prems" have "nat i = length input" by simp
    with "1.prems"(1) False show ?thesis
      by (subst setBits.simps) simp
  next
    case True
    then have lt: "nat i < length input" using "1.prems"(2) by simp
    have ix: "go_index input i = Some (input ! nat i)"
      using True "1.prems"(2) by (simp add: go_index_def)
    have ii: "int (nat i) = i" using "1.prems"(2) by simp
    from setBits_step[OF "1.prems"(1) lt, unfolded ii]
    obtain result' where
      st: "(if input ! nat i = True then do {
             x \<leftarrow> go_index result (int (length result) - i div 8 - 1);
             go_store result (int (length result) - i div 8 - 1)
               (x + push_bit (nat (i mod 8)) 1)
           } else Some result) = Some result'"
      and inv': "bytes_upto input (Suc (nat i)) result'"
      by auto
    have "nat (i + 1) = Suc (nat i)" using "1.prems"(2) by simp
    with "1.IH"[OF True ix st] inv' "1.prems"(2) True
    obtain r where "setBits input (i + 1) result' = Some r" "bytes_upto input (length input) r"
      by auto
    moreover have "setBits input i result = setBits input (i + 1) result'"
      by (subst setBits.simps) (simp only: True if_True ix st Option.bind.bind_lunit)
    ultimately show ?thesis by simp
  qed
qed

lemma boolArrayToBytes_bits:
  "\<exists>r. boolArrayToBytes input = Some r \<and> bytes_upto input (length input) r"
proof -
  let ?L = "(length input + 7) div 8"
  have mk: "go_make (0::byte) ((int (length input) + 7) div 8) = Some (replicate ?L 0)"
  proof -
    have "(int (length input) + 7) div 8 = int ?L"
      by (simp add: zdiv_int)
    then show ?thesis by (simp add: go_make_def)
  qed
  have "bytes_upto input (nat 0) (replicate ?L 0)"
    by (simp add: bytes_upto_def)
  from setBits_inv[OF this] show ?thesis
    by (simp add: boolArrayToBytes_def mk)
qed

lemma boolArrayToBytes_pack_var:
  assumes "8 * length buf \<le> n"
  shows "boolArrayToBytes (pack_var buf (int n)) =
         Some (replicate ((n + 7) div 8 - length buf) 0 @ buf)"
proof -
  let ?input = "pack_var buf (int n)"
  let ?L = "(n + 7) div 8"
  let ?Z = "?L - length buf"
  have len_in: "length ?input = n" by (simp add: pack_var_def)
  from boolArrayToBytes_bits[of ?input] obtain r where
    r: "boolArrayToBytes ?input = Some r" and inv: "bytes_upto ?input n r"
    by (auto simp: len_in)
  from inv have L: "length r = ?L"
    and bits: "\<And>p b. p < ?L \<Longrightarrow> b < 8 \<Longrightarrow>
        bit (r ! p) b \<longleftrightarrow> (8 * (?L - 1 - p) + b < n \<and> ?input ! (8 * (?L - 1 - p) + b))"
    by (auto simp: bytes_upto_def len_in)
  have lb: "length buf \<le> ?L" using assms by linarith
  have "r = replicate ?Z 0 @ buf"
  proof (rule nth_equalityI)
    show "length r = length (replicate ?Z 0 @ buf)" using L lb by simp
  next
    fix p assume "p < length r"
    then have p: "p < ?L" using L by simp
    let ?q = "?L - 1 - p"
    show "r ! p = (replicate ?Z 0 @ buf) ! p"
    proof (rule bit_word_eqI)
      fix b assume "b < LENGTH(8)"
      then have b: "b < 8" by simp
      have dm: "b div 8 = 0" "b mod 8 = b" using b by auto
      have "bit (r ! p) b \<longleftrightarrow> (8 * ?q + b < n \<and> wire_bit buf (8 * ?q + b))"
        using bits[OF p b] by (auto simp: pack_var_def)
      also have "\<dots> \<longleftrightarrow> (?q < length buf \<and> bit (buf ! (length buf - 1 - ?q)) b)"
      proof (cases "?q < length buf")
        case True
        then have "8 * ?q + b < n" using assms b by linarith
        with True show ?thesis by (simp add: wire_bit_def dm)
      next
        case False
        then show ?thesis by (simp add: wire_bit_def dm)
      qed
      also have "\<dots> \<longleftrightarrow> bit ((replicate ?Z 0 @ buf) ! p) b"
      proof (cases "p < ?Z")
        case True
        then have "\<not> ?q < length buf" using p lb by linarith
        with True show ?thesis by (simp add: nth_append)
      next
        case False
        then have "?q < length buf" "length buf - 1 - ?q = p - ?Z" using p lb by linarith+
        with False show ?thesis by (simp add: nth_append)
      qed
      finally show "bit (r ! p) b \<longleftrightarrow> bit ((replicate ?Z 0 @ buf) ! p) b" .
    qed
  qed
  with r show ?thesis by simp
qed

subsection \<open>The round trip through the identity circuit\<close>

text \<open>The identity circuit on two wires, as the builder produces it.\<close>

lemma identityCircuit_built:
  "do { c0 \<leftarrow> initializeCircuit emptyCircuit 2 2 1 1 [2] [2];
        (c1, g0) \<leftarrow> addGate c0 GateCOPY False [0];
        (c2, g1) \<leftarrow> addGate c1 GateCOPY False [1];
        (c3, _) \<leftarrow> connectOutputWire c2 g0 0;
        connectOutputWire c3 g1 1 } = Some (identityCircuit 2, True)"
  by (simp add: initializeCircuit_def emptyCircuit_def addGate_def
      connectOutputWire_def getOutputGate_def identityCircuit_def go_index_def go_store_def
      min_input_wires_def max_input_wires_def GateType_defs Let_def eval_nat_numeral)

lemma PadInputsToBoolArray_identity:
  assumes "8 * length buf \<le> n"
  shows "PadInputsToBoolArray (identityCircuit n) [buf] = Some (Some (pack_var buf (int n)))"
proof -
  let ?c = "identityCircuit n"
  have f: "NumInputWires ?c = int n" "NumInputVars ?c = 1" "NumWiresIV ?c = [int n]"
    by (simp_all add: identityCircuit_def)
  have "padVars ?c [buf] 0 0 (replicate n False) =
       Some (if \<exists>k. nat 0 \<le> k \<and> k < length [buf] \<and> NumWiresIV ?c ! k < int (length ([buf] ! k)) * 8
             then None
             else Some (take (nat 0) (replicate n False) @
                        concat (map2 pack_var (drop (nat 0) [buf]) (drop (nat 0) (NumWiresIV ?c))) @
                        drop (nat (sum_list (take (length [buf]) (NumWiresIV ?c)))) (replicate n False)))"
    by (intro padVars_eq) (simp_all add: f)
  moreover have "\<not> (\<exists>k. nat 0 \<le> k \<and> k < length [buf] \<and> NumWiresIV ?c ! k < int (length ([buf] ! k)) * 8)"
    using assms by (auto simp: f)
  ultimately have "padVars ?c [buf] 0 0 (replicate n False) = Some (Some (pack_var buf (int n)))"
    by (simp add: f)
  then show ?thesis
    by (simp add: PadInputsToBoolArray_def go_make_def f)
qed

text \<open>
  C3. For the identity circuit on \<open>n\<close> wires (at least one) and every buffer of at most
  \<open>n\<close> bits, packing the buffer, evaluating and unpacking returns one buffer: the
  original bytes, behind as many zero bytes as it takes to fill the \<open>(n + 7) / 8\<close> bytes
  that hold \<open>n\<close> wires. With \<open>n\<close> equal to the bit-length of the buffer that is the
  buffer itself.
\<close>

theorem identity_roundtrip:
  assumes "0 < n" and "8 * length buf \<le> n"
  shows "roundtrip (identityCircuit n) [buf] =
         Some (Some [replicate ((n + 7) div 8 - length buf) 0 @ buf])"
proof -
  have len: "length (pack_var buf (int n)) = n"
    by (simp add: length_pack_var)
  show ?thesis
    using PadInputsToBoolArray_identity[OF assms(2)]
      EvaluateCircuit_identity[OF assms(1) len]
      DecodeOutputVariables_identity[OF len boolArrayToBytes_pack_var[OF assms(2)]]
    by (simp add: roundtrip_def)
qed


theorem identity_roundtrip_witness:
  "roundtrip (identityCircuit 8) [[0x05]] = Some (Some [[0x05]]) \<and>
   roundtrip (identityCircuit 16) [[0xA5, 0x3C]] = Some (Some [[0xA5, 0x3C]]) \<and>
   roundtrip (identityCircuit 20) [[0x05]] = Some (Some [[0, 0, 0x05]])"
proof -
  have r: "replicate ((20 + 7) div 8 - length [0x05 :: byte]) (0 :: byte) = [0, 0]"
    by (simp add: numeral_2_eq_2)
  show ?thesis
    using identity_roundtrip[of 8 "[0x05]"] identity_roundtrip[of 16 "[0xA5, 0x3C]"]
      identity_roundtrip[of 20 "[0x05]"]
    unfolding r by simp
qed

end
